theory Spec2Isabelle
  imports Complex_Main "HOL-Library.Multiset"
begin

section \<open>Data model (types.ts)\<close>

text \<open>
  The interfaces of \<^verbatim>\<open>types.ts\<close> become records, the string-literal unions become
  datatypes. A JavaScript \<^verbatim>\<open>number\<close> that the code reads from the service or from the
  zoom state is a finite real; a number the code computes with \<^verbatim>\<open>Math.sqrt\<close> may be
  \<^verbatim>\<open>NaN\<close>, which is the value \<open>None\<close> of the type \<open>number\<close> below. Rounding of
  IEEE doubles is not modelled. Optional fields (\<^verbatim>\<open>isBold?\<close>, \<^verbatim>\<open>type?\<close>) are options.
  The fields \<^verbatim>\<open>id\<close>, \<^verbatim>\<open>text\<close>, \<^verbatim>\<open>type\<close> and \<^verbatim>\<open>name\<close> carry a suffix because the
  plain names are taken. A browser \<^verbatim>\<open>File\<close> is its name, its MIME type and its bytes; the
  bytes are kept in the base64 text that \<^verbatim>\<open>FileReader.readAsDataURL\<close> produces for them.
\<close>

datatype SupportedLocale = EN | ZH_CN | ZH_TW | JA | KO | FR | DE | ES

datatype BlockType = Text | Heading | Table_cell

datatype Status = Pending | Processing | Completed | Error

type_synonym number = "real option"

type_synonym Box = "real \<times> real \<times> real \<times> real"

fun box_0 :: "Box \<Rightarrow> real" where
  "box_0 (ymin, xmin, ymax, xmax) = ymin"

fun box_1 :: "Box \<Rightarrow> real" where
  "box_1 (ymin, xmin, ymax, xmax) = xmin"

fun box_2 :: "Box \<Rightarrow> real" where
  "box_2 (ymin, xmin, ymax, xmax) = ymax"

fun box_3 :: "Box \<Rightarrow> real" where
  "box_3 (ymin, xmin, ymax, xmax) = xmax"

record GeminiBlock =
  text_b :: string
  translatedText :: string
  box :: Box
  isBold :: "bool option"
  type_b :: "BlockType option"

record TranslatedBlock = GeminiBlock +
  id_b :: string
  pageIndex :: nat

record File =
  name_f :: string
  type_f :: string
  content_f :: string

record FileTask =
  id_t :: string
  name_t :: string
  file_t :: File
  previewUrl :: string
  status :: Status
  detailedStatus :: string
  progress :: int
  totalPages :: nat
  processedPages :: nat
  warnings :: "string list"
  translatedBlocks :: "TranslatedBlock list"
  targetLanguage :: SupportedLocale

section \<open>JavaScript primitives used by the code\<close>

text \<open>
  \<^verbatim>\<open>Math.sqrt\<close> of a negative number is \<^verbatim>\<open>NaN\<close>; \<^verbatim>\<open>Math.min\<close> and \<^verbatim>\<open>Math.max\<close>
  return \<^verbatim>\<open>NaN\<close> as soon as one argument is \<^verbatim>\<open>NaN\<close>; every comparison with
  \<^verbatim>\<open>NaN\<close> is false.
\<close>

definition Math_sqrt :: "real \<Rightarrow> number" where
  "Math_sqrt x = (if x < 0 then None else Some (sqrt x))"

fun Math_min :: "number \<Rightarrow> number \<Rightarrow> number" where
  "Math_min (Some x) (Some y) = Some (min x y)"
| "Math_min _ _ = None"

fun Math_max :: "number \<Rightarrow> number \<Rightarrow> number" where
  "Math_max (Some x) (Some y) = Some (max x y)"
| "Math_max _ _ = None"

fun greater_js :: "number \<Rightarrow> real \<Rightarrow> bool" where
  "greater_js (Some x) y = (x > y)"
| "greater_js None y = False"



section \<open>SplitView: render order and font sizing\<close>




text \<open>
  The body of \<^verbatim>\<open>sortedBlocks.map\<close>, one definition per assignment to
  \<^verbatim>\<open>estimatedFontSize\<close>: the density estimate, the cap for short strings, the clamp, and
  the boost for headings.
\<close>

definition height :: "TranslatedBlock \<Rightarrow> real" where
  "height block = box_2 (box block) - box_0 (box block)"

definition width :: "TranslatedBlock \<Rightarrow> real" where
  "width block = box_3 (box block) - box_1 (box block)"

definition boxWidthPx :: "TranslatedBlock \<Rightarrow> real \<Rightarrow> real" where
  "boxWidthPx block zoom = width block * 5.95 * zoom"

definition boxHeightPx :: "TranslatedBlock \<Rightarrow> real \<Rightarrow> real" where
  "boxHeightPx block zoom = height block * 8.42 * zoom"

definition area :: "TranslatedBlock \<Rightarrow> real \<Rightarrow> real" where
  "area block zoom = boxWidthPx block zoom * boxHeightPx block zoom"

definition charCount :: "TranslatedBlock \<Rightarrow> nat" where
  "charCount block =
     (if length (translatedText block) = 0 then 1 else length (translatedText block))"

definition densityFontSize :: "TranslatedBlock \<Rightarrow> real \<Rightarrow> number" where
  "densityFontSize block zoom = Math_sqrt ((area block zoom * 0.90) / real (charCount block))"

definition cappedFontSize :: "TranslatedBlock \<Rightarrow> real \<Rightarrow> number" where
  "cappedFontSize block zoom =
     (if charCount block < 10
      then Math_min (densityFontSize block zoom) (Some (boxHeightPx block zoom * 0.85))
      else densityFontSize block zoom)"

definition minFs :: "real \<Rightarrow> real" where
  "minFs zoom = 9 * zoom"

definition maxFs :: "real \<Rightarrow> real" where
  "maxFs zoom = 48 * zoom"

definition clampedFontSize :: "TranslatedBlock \<Rightarrow> real \<Rightarrow> number" where
  "clampedFontSize block zoom =
     Math_max (Some (minFs zoom)) (Math_min (cappedFontSize block zoom) (Some (maxFs zoom)))"

definition isBoldStyle :: "TranslatedBlock \<Rightarrow> bool" where
  "isBoldStyle block = (isBold block = Some True \<or> type_b block = Some Heading)"

definition isHeader :: "TranslatedBlock \<Rightarrow> real \<Rightarrow> bool" where
  "isHeader block zoom =
     (type_b block = Some Heading \<or>
      (charCount block < 30 \<and> greater_js (clampedFontSize block zoom) (14 * zoom)))"

definition isTable :: "TranslatedBlock \<Rightarrow> bool" where
  "isTable block = (type_b block = Some Table_cell)"

definition estimatedFontSize :: "TranslatedBlock \<Rightarrow> real \<Rightarrow> number" where
  "estimatedFontSize block zoom =
     (if type_b block = Some Heading
      then Math_max (clampedFontSize block zoom) (Some (14 * zoom))
      else clampedFontSize block zoom)"

text \<open>
  The zoom factor is component state: it starts at 1 and changes only through the two
  toolbar buttons, which keep it between 0.5 and 3.
\<close>

datatype ZoomClick = ZoomOut | ZoomIn

fun setZoom :: "ZoomClick \<Rightarrow> real \<Rightarrow> real" where
  "setZoom ZoomOut z = max 0.5 (z - 0.1)"
| "setZoom ZoomIn z = min 3 (z + 0.1)"

definition zoomAfter :: "ZoomClick list \<Rightarrow> real" where
  "zoomAfter clicks = fold setZoom clicks 1"

section \<open>App: helpers\<close>

text \<open>
  Template literals print numbers in decimal.
\<close>

definition digits :: string where
  "digits = ''0123456789''"

function show_nat :: "nat \<Rightarrow> string" where
  "show_nat n = (if n < 10 then [digits ! n] else show_nat (n div 10) @ [digits ! (n mod 10)])"
  by pat_completeness auto
termination
  by (relation "measure (\<lambda>n. n)") auto

definition show_int :: "int \<Rightarrow> string" where
  "show_int i = (if i < 0 then ''-'' @ show_nat (nat (- i)) else show_nat (nat i))"

text \<open>
  \<^verbatim>\<open>String.prototype.includes\<close>, \<^verbatim>\<open>String.prototype.split\<close> on one character, and
  reading an array at an index (\<open>None\<close> is \<^verbatim>\<open>undefined\<close>).
\<close>

fun includes_js :: "string \<Rightarrow> string \<Rightarrow> bool" where
  "includes_js [] sub = (sub = [])"
| "includes_js (c # cs) sub = (take (length sub) (c # cs) = sub \<or> includes_js cs sub)"

fun split_js :: "char \<Rightarrow> string \<Rightarrow> string list" where
  "split_js sep [] = [[]]"
| "split_js sep (c # cs) =
     (if c = sep then [] # split_js sep cs
      else (case split_js sep cs of [] \<Rightarrow> [[c]] | w # ws \<Rightarrow> (c # w) # ws))"

fun at_js :: "'a list \<Rightarrow> nat \<Rightarrow> 'a option" where
  "at_js [] i = None"
| "at_js (x # xs) 0 = Some x"
| "at_js (x # xs) (Suc i) = at_js xs i"

text \<open>
  \<^verbatim>\<open>TARGET_LANG_OPTIONS\<close> (constants.ts) and the label the code looks up in it,
  \<^verbatim>\<open>TARGET_LANG_OPTIONS.find(o => o.value === lang)?.label || 'English'\<close>.
\<close>

definition TARGET_LANG_OPTIONS :: "(SupportedLocale \<times> string) list" where
  "TARGET_LANG_OPTIONS =
     [(EN, ''English''), (ZH_CN, ''Chinese (Simplified)''), (ZH_TW, ''Chinese (Traditional)''),
      (JA, ''Japanese''), (KO, ''Korean''), (FR, ''French''), (DE, ''German''),
      (ES, ''Spanish'')]"

definition targetLabel :: "SupportedLocale \<Rightarrow> string" where
  "targetLabel lang =
     (case find (\<lambda>opt. fst opt = lang) TARGET_LANG_OPTIONS of
        None \<Rightarrow> ''English''
      | Some opt \<Rightarrow> if snd opt = [] then ''English'' else snd opt)"

text \<open>
  A value that a rejected promise or a \<^verbatim>\<open>throw\<close> hands to the \<^verbatim>\<open>catch\<close> block: an
  object whose \<^verbatim>\<open>message\<close> may be missing. \<open>errorMessage\<close> is the message the
  \<^verbatim>\<open>catch\<close> block computes from it.
\<close>

datatype Thrown = Thrown (message_e: "string option")

definition errorMessage :: "Thrown \<Rightarrow> string" where
  "errorMessage error =
     (case message_e error of
        None \<Rightarrow> ''Analysis failed''
      | Some m \<Rightarrow>
          if m \<noteq> [] \<and> includes_js m ''API key'' then ''Invalid API Key''
          else if m \<noteq> [] then m
          else ''Analysis failed'')"

text \<open>
  \<^verbatim>\<open>fileToBase64\<close>. The \<^verbatim>\<open>FileReader\<close> either loads (with a string result, the data
  URL of the file, or with a result that is no string) or fails; which one is the
  environment's choice. On a load the promise resolves with the second piece of the
  data URL split at commas; a failure rejects with the reader's event, which has no
  message.
\<close>

datatype ReaderOutcome = OnLoad | OnLoadNoString | OnError

definition readAsDataURL :: "File \<Rightarrow> string" where
  "readAsDataURL f = ''data:'' @ type_f f @ '';base64,'' @ content_f f"

definition fileToBase64 :: "File \<Rightarrow> ReaderOutcome \<Rightarrow> Thrown + string option" where
  "fileToBase64 f r =
     (case r of
        OnLoad \<Rightarrow> Inr (at_js (split_js CHR '','' (readAsDataURL f)) 1)
      | OnLoadNoString \<Rightarrow> Inl (Thrown (Some ''Failed to read file''))
      | OnError \<Rightarrow> Inl (Thrown None))"

section \<open>App: the updates of the task list\<close>

text \<open>
  Every \<^verbatim>\<open>setTasks\<close> call of \<^verbatim>\<open>App.tsx\<close> passes a function of the previous list. The
  calls of \<^verbatim>\<open>processQueue\<close> all have the shape
  \<^verbatim>\<open>prev.map(t => t.id === pendingTask.id ? {...t, ...} : t)\<close>, which is \<open>mapTask\<close>.
\<close>

type_synonym updater = "FileTask list \<Rightarrow> FileTask list"

definition mapTask :: "string \<Rightarrow> (FileTask \<Rightarrow> FileTask) \<Rightarrow> updater" where
  "mapTask pid patch prev = map (\<lambda>t. if id_t t = pid then patch t else t) prev"

definition markProcessing :: "string \<Rightarrow> updater" where
  "markProcessing pid =
     mapTask pid (\<lambda>t. t\<lparr>status := Processing,
                         detailedStatus := ''Performing OCR Analysis...'',
                         progress := 5\<rparr>)"

definition markExtracting :: "string \<Rightarrow> updater" where
  "markExtracting pid =
     mapTask pid (\<lambda>t. t\<lparr>progress := 20, detailedStatus := ''Extracting text layout...''\<rparr>)"

definition markTranslating :: "string \<Rightarrow> updater" where
  "markTranslating pid =
     mapTask pid (\<lambda>t. t\<lparr>detailedStatus := ''Translating content (Page 1)...''\<rparr>)"

text \<open>
  \<^verbatim>\<open>30 + Math.floor(((i + 1) / totalBlocks) * 60)\<close>, with the quotient and the product
  taken over the reals.
\<close>

definition currentProgress :: "nat \<Rightarrow> nat \<Rightarrow> int" where
  "currentProgress i totalBlocks = 30 + \<lfloor>(real (i + 1) / real totalBlocks) * 60\<rfloor>"

definition newBlock :: "GeminiBlock list \<Rightarrow> nat \<Rightarrow> nat \<Rightarrow> TranslatedBlock" where
  "newBlock blocks i now =
     (let blockData = blocks ! i in
      \<lparr>text_b = text_b blockData,
       translatedText = translatedText blockData,
       box = box blockData,
       isBold = isBold blockData,
       type_b = type_b blockData,
       id_b = ''b-'' @ show_nat i @ ''-'' @ show_nat now,
       pageIndex = 0\<rparr>)"

definition appendBlock :: "string \<Rightarrow> GeminiBlock list \<Rightarrow> nat \<Rightarrow> nat \<Rightarrow> updater" where
  "appendBlock pid blocks i now =
     mapTask pid (\<lambda>t. t\<lparr>translatedBlocks := translatedBlocks t @ [newBlock blocks i now],
                         progress := currentProgress i (length blocks),
                         detailedStatus :=
                           ''Translating block '' @ show_nat (i + 1) @ ''/'' @
                           show_nat (length blocks) @ '' ('' @
                           show_int (currentProgress i (length blocks)) @ ''%)''\<rparr>)"

definition markCompleted :: "string \<Rightarrow> updater" where
  "markCompleted pid =
     mapTask pid (\<lambda>t. t\<lparr>status := Completed,
                         detailedStatus := ''Translation Completed'',
                         progress := 100\<rparr>)"

definition markError :: "string \<Rightarrow> string \<Rightarrow> updater" where
  "markError pid msg =
     mapTask pid (\<lambda>t. t\<lparr>status := Error,
                         detailedStatus := ''Error encountered'',
                         warnings := [msg]\<rparr>)"

definition removeTask :: "string \<Rightarrow> updater" where
  "removeTask tid ts = filter (\<lambda>t. id_t t \<noteq> tid) ts"

text \<open>
  \<^verbatim>\<open>handleFilesSelected\<close> builds one task per file; the id is a draw of
  \<^verbatim>\<open>Math.random\<close> and the preview URL comes from \<^verbatim>\<open>URL.createObjectURL\<close>, so both
  arrive with the file. \<open>findTask\<close> is \<^verbatim>\<open>tasks.find(t => t.id === id)\<close>, as the code
  reads the active task.
\<close>

definition newTask :: "SupportedLocale \<Rightarrow> File \<times> string \<times> string \<Rightarrow> FileTask" where
  "newTask lang = (\<lambda>(f, rid, url).
     \<lparr>id_t = rid, name_t = name_f f, file_t = f, previewUrl = url, status = Pending,
      detailedStatus = ''Waiting to start...'', progress = 0, totalPages = 1,
      processedPages = 0, warnings = [], translatedBlocks = [], targetLanguage = lang\<rparr>)"

definition findTask :: "string \<Rightarrow> FileTask list \<Rightarrow> FileTask option" where
  "findTask tid ts = find (\<lambda>t. id_t t = tid) ts"

section \<open>App: processQueue as a resumable pipeline\<close>

text \<open>
  \<^verbatim>\<open>processQueue\<close> is an async function: it runs until an \<^verbatim>\<open>await\<close>, and resumes when
  the awaited promise settles. A pipeline is one call of it: the \<^verbatim>\<open>pendingTask\<close> its
  closure holds, and the \<^verbatim>\<open>await\<close> it is suspended at. \<open>resume\<close> runs it from there to
  the next \<^verbatim>\<open>await\<close> (or to its end) and returns the \<^verbatim>\<open>setTasks\<close> calls it makes on the
  way, in order. The service's answer is \<^verbatim>\<open>null\<close>, an object without \<^verbatim>\<open>blocks\<close>, or
  an object with a block list.
\<close>

type_synonym AdapterRequest = "string option \<times> string \<times> string"

datatype Phase =
    AwaitRead
  | AwaitAdapter AdapterRequest
  | AwaitTimer "GeminiBlock list" nat
  | Finished

record Pipeline =
  pendingTask :: FileTask
  phase :: Phase

datatype Response = Null | NoBlocks | Blocks "GeminiBlock list"

datatype Settled =
    ReadSettled ReaderOutcome
  | AdapterSettled "Thrown + Response"
  | TimerFired nat

definition invalidResponse :: Thrown where
  "invalidResponse = Thrown (Some ''Invalid response format from Analysis Engine'')"

definition catchBlock :: "string \<Rightarrow> Thrown \<Rightarrow> updater list \<times> Phase" where
  "catchBlock pid error = ([markError pid (errorMessage error)], Finished)"

definition loopHead :: "string \<Rightarrow> GeminiBlock list \<Rightarrow> nat \<Rightarrow> updater list \<times> Phase" where
  "loopHead pid blocks i =
     (if i < length blocks then ([], AwaitTimer blocks i) else ([markCompleted pid], Finished))"

fun resume :: "FileTask \<Rightarrow> Phase \<Rightarrow> Settled \<Rightarrow> updater list \<times> Phase" where
  "resume p AwaitRead (ReadSettled r) =
     (case fileToBase64 (file_t p) r of
        Inl error \<Rightarrow> catchBlock (id_t p) error
      | Inr base64 \<Rightarrow>
          ([markExtracting (id_t p)],
           AwaitAdapter (base64, type_f (file_t p), targetLabel (targetLanguage p))))"
| "resume p (AwaitAdapter request) (AdapterSettled r) =
     (case r of
        Inl error \<Rightarrow> catchBlock (id_t p) error
      | Inr Null \<Rightarrow> catchBlock (id_t p) invalidResponse
      | Inr NoBlocks \<Rightarrow> catchBlock (id_t p) invalidResponse
      | Inr (Blocks blocks) \<Rightarrow>
          (markTranslating (id_t p) # fst (loopHead (id_t p) blocks 0),
           snd (loopHead (id_t p) blocks 0)))"
| "resume p (AwaitTimer blocks i) (TimerFired now) =
     (if i < length blocks
      then (appendBlock (id_t p) blocks i now # fst (loopHead (id_t p) blocks (i + 1)),
            snd (loopHead (id_t p) blocks (i + 1)))
      else ([], AwaitTimer blocks i))"
| "resume p ph _ = ([], ph)"

section \<open>App: state, events and runs\<close>

text \<open>
  The state of \<^verbatim>\<open>App\<close> (toasts left out) and the pipelines in flight. An event is a
  user action, a run of the \<^verbatim>\<open>useEffect\<close> body, or the settling of the promise a
  pipeline waits for. \<open>handle\<close> gives the \<^verbatim>\<open>setTasks\<close> calls of the event's handler, in
  order, and the rest of the new state; \<open>setTasks\<close> lists the values the task list takes.
  The effect may run at any moment; React runs it after every change of \<^verbatim>\<open>tasks\<close>. Its
  body reads the committed list, finds the pending task and calls \<^verbatim>\<open>setTasks\<close> before its
  first \<^verbatim>\<open>await\<close>, so the function it passes is applied to the list it has read. What a
  pipeline does after an \<^verbatim>\<open>await\<close> is an event of its own and may interleave with every
  other event.
\<close>

record AppState =
  tasks :: "FileTask list"
  activeTaskId :: "string option"
  defaultTargetLang :: SupportedLocale
  pipelines :: "Pipeline list"

datatype Event =
    FilesSelected "(File \<times> string \<times> string) list"
  | TaskClicked string
  | TargetLangChanged SupportedLocale
  | RemoveClicked string
  | EffectRun
  | Resumed nat Settled

definition processQueue :: "FileTask list \<Rightarrow> updater list \<times> Pipeline list" where
  "processQueue ts =
     (case find (\<lambda>t. status t = Pending) ts of
        None \<Rightarrow> ([], [])
      | Some p \<Rightarrow> ([markProcessing (id_t p)], [\<lparr>pendingTask = p, phase = AwaitRead\<rparr>]))"

definition effect :: "FileTask list \<Rightarrow> updater list \<times> Pipeline list" where
  "effect ts =
     (if list_ex (\<lambda>t. status t = Processing) ts then ([], []) else processQueue ts)"

fun handle :: "Event \<Rightarrow> AppState \<Rightarrow> updater list \<times> AppState" where
  "handle (FilesSelected files) s =
     (if files = [] then ([], s)
      else ([\<lambda>prev. prev @ map (newTask (defaultTargetLang s)) files],
            s\<lparr>activeTaskId :=
                (if activeTaskId s = None \<or> activeTaskId s = Some []
                 then Some (id_t (hd (map (newTask (defaultTargetLang s)) files)))
                 else activeTaskId s)\<rparr>))"
| "handle (TaskClicked tid) s = ([], s\<lparr>activeTaskId := Some tid\<rparr>)"
| "handle (TargetLangChanged lang) s = ([], s\<lparr>defaultTargetLang := lang\<rparr>)"
| "handle (RemoveClicked tid) s =
     (if activeTaskId s = Some tid \<and> tid \<in> set (map id_t (tasks s))
      then ([removeTask tid], s) else ([], s))"
| "handle EffectRun s =
     (fst (effect (tasks s)), s\<lparr>pipelines := pipelines s @ snd (effect (tasks s))\<rparr>)"
| "handle (Resumed k outcome) s =
     (if k < length (pipelines s)
      then (fst (resume (pendingTask (pipelines s ! k)) (phase (pipelines s ! k)) outcome),
            s\<lparr>pipelines := (pipelines s)
                [k := (pipelines s ! k)
                   \<lparr>phase := snd (resume (pendingTask (pipelines s ! k))
                                      (phase (pipelines s ! k)) outcome)\<rparr>]\<rparr>)
      else ([], s))"

fun setTasks :: "updater list \<Rightarrow> FileTask list \<Rightarrow> FileTask list list" where
  "setTasks [] prev = []"
| "setTasks (w # ws) prev = w prev # setTasks ws (w prev)"

definition writes :: "Event \<Rightarrow> AppState \<Rightarrow> FileTask list list" where
  "writes e s = setTasks (fst (handle e s)) (tasks s)"

definition fire :: "Event \<Rightarrow> AppState \<Rightarrow> AppState" where
  "fire e s = (snd (handle e s))\<lparr>tasks := last (tasks s # writes e s)\<rparr>"

fun run :: "Event list \<Rightarrow> AppState \<Rightarrow> AppState" where
  "run [] s = s"
| "run (e # es) s = run es (fire e s)"

fun history :: "Event list \<Rightarrow> AppState \<Rightarrow> FileTask list list" where
  "history [] s = []"
| "history (e # es) s = writes e s @ history es (fire e s)"

definition initial :: AppState where
  "initial = \<lparr>tasks = [], activeTaskId = None, defaultTargetLang = ZH_CN, pipelines = []\<rparr>"

text \<open>
  The ids are random draws. A run is collision free when no draw repeats an id that a
  task of the list or a pipeline already has, and the draws of one selection differ.
\<close>

definition drawn :: "Event \<Rightarrow> string list" where
  "drawn e = (case e of FilesSelected files \<Rightarrow> map (\<lambda>(f, rid, url). rid) files | _ \<Rightarrow> [])"

definition fresh :: "Event \<Rightarrow> AppState \<Rightarrow> bool" where
  "fresh e s =
     (distinct (drawn e) \<and>
      list_all (\<lambda>rid. rid \<notin> set (map id_t (tasks s)) \<and>
                      rid \<notin> set (map (\<lambda>pl. id_t (pendingTask pl)) (pipelines s)))
        (drawn e))"

fun collision_free :: "Event list \<Rightarrow> AppState \<Rightarrow> bool" where
  "collision_free [] s = True"
| "collision_free (e # es) s = (fresh e s \<and> collision_free es (fire e s))"

definition processingCount :: "FileTask list \<Rightarrow> nat" where
  "processingCount ts = length (filter (\<lambda>t. status t = Processing) ts)"

definition progress_le :: "FileTask list \<Rightarrow> FileTask list \<Rightarrow> bool" where
  "progress_le ts ts' =
     list_all (\<lambda>t. list_all (\<lambda>t'. id_t t = id_t t' \<longrightarrow> progress t \<le> progress t') ts') ts"

text \<open>
  The preview of \<^verbatim>\<open>SplitView\<close> (\<^verbatim>\<open>loadPreview\<close>): for a PDF, page 1 rendered by pdf.js
  at scale 2.0 and exported as a JPEG of quality 0.95; for any other file, the file's own
  object URL. The pixels are pdf.js's business; the preview is what the code asks for
  (when pdf.js fails the code logs the error and shows no preview).
\<close>

datatype Preview =
    PdfPage nat real string real
  | OriginalUrl string

definition loadPreview :: "FileTask \<Rightarrow> Preview" where
  "loadPreview task =
     (if type_f (file_t task) = ''application/pdf''
      then PdfPage 1 2.0 ''image/jpeg'' 0.95
      else OriginalUrl (previewUrl task))"

section \<open>Concrete inputs\<close>

definition ex_block :: "string \<Rightarrow> Box \<Rightarrow> BlockType option \<Rightarrow> TranslatedBlock" where
  "ex_block s b ty =
     \<lparr>text_b = s, translatedText = s, box = b, isBold = None, type_b = ty,
      id_b = ''b-0-0'', pageIndex = 0\<rparr>"

definition ex_file :: "string \<Rightarrow> string \<Rightarrow> string \<Rightarrow> File" where
  "ex_file n ty bytes = \<lparr>name_f = n, type_f = ty, content_f = bytes\<rparr>"



definition ex_response :: "GeminiBlock list" where
  "ex_response =
     [\<lparr>text_b = ''RECHNUNG'', translatedText = ''INVOICE'', box = (5, 10, 10, 90),
       isBold = Some True, type_b = Some Heading\<rparr>,
      \<lparr>text_b = ''Betrag'', translatedText = ''Amount'', box = (20, 10, 24, 40),
       isBold = None, type_b = Some Table_cell\<rparr>,
      \<lparr>text_b = ''Vielen Dank'', translatedText = ''Thank you'', box = (80, 10, 84, 60),
       isBold = None, type_b = None\<rparr>]"

definition ex_image :: File where
  "ex_image = ex_file ''scan.png'' ''image/png'' ''iVBORw0KGgo=''"

definition ex_pdf :: File where
  "ex_pdf = ex_file ''paper.pdf'' ''application/pdf'' ''JVBERi0xLjcK''"

definition ex_submit :: Event where
  "ex_submit =
     FilesSelected [(ex_image, ''k3x9p2q1a'', ''blob:1''), (ex_pdf, ''z8m4w7c2e'', ''blob:2'')]"

definition ex_run :: "Event list" where
  "ex_run =
     [ex_submit, EffectRun,
      Resumed 0 (ReadSettled OnLoad),
      Resumed 0 (AdapterSettled (Inr (Blocks ex_response))),
      Resumed 0 (TimerFired 1000), EffectRun,
      Resumed 0 (TimerFired 1030),
      Resumed 0 (TimerFired 1060), EffectRun,
      Resumed 1 (ReadSettled OnLoad),
      Resumed 1 (AdapterSettled (Inl (Thrown (Some ''fetch failed'')))), EffectRun]"

definition ex_fail :: "Event list" where
  "ex_fail =
     [ex_submit, EffectRun,
      Resumed 0 (ReadSettled OnLoad),
      Resumed 0 (AdapterSettled (Inl (Thrown (Some ''Failed to fetch'')))),
      EffectRun]"

definition ex_remove :: "Event list" where
  "ex_remove =
     [ex_submit, EffectRun,
      Resumed 0 (ReadSettled OnLoad),
      RemoveClicked ''k3x9p2q1a'', EffectRun,
      Resumed 0 (AdapterSettled (Inr (Blocks ex_response))),
      Resumed 0 (TimerFired 1000),
      Resumed 1 (ReadSettled OnLoad),
      Resumed 0 (TimerFired 1030),
      Resumed 0 (TimerFired 1060)]"

section \<open>Invariants of the task list\<close>

text \<open>
  An update is quiet when it keeps the ids and puts no further task into processing.
  \<open>inv2\<close> is the invariant of the admission control: the ids differ and at most one
  task is processing.
\<close>

definition quiet :: "updater \<Rightarrow> bool" where
  "quiet w = (\<forall>ts. map id_t (w ts) = map id_t ts \<and> processingCount (w ts) \<le> processingCount ts)"

definition inv2 :: "FileTask list \<Rightarrow> bool" where
  "inv2 ts = (distinct (map id_t ts) \<and> processingCount ts \<le> 1)"

text \<open>
  The invariant behind the monotone progress. A pipeline is active until it has finished.
  While it is active, the task it works on (if it is still in the list) is processing and
  its progress is the value the pipeline wrote last, \<open>phaseProgress\<close>; the active
  pipelines work on different ids; a loop index in flight is within the block list; and a
  pending task has progress 0.
\<close>

definition pid_of :: "Pipeline \<Rightarrow> string" where
  "pid_of pl = id_t (pendingTask pl)"

definition active :: "Pipeline \<Rightarrow> bool" where
  "active pl = (phase pl \<noteq> Finished)"

fun phaseProgress :: "Phase \<Rightarrow> int" where
  "phaseProgress AwaitRead = 5"
| "phaseProgress (AwaitAdapter request) = 20"
| "phaseProgress (AwaitTimer blocks i) =
     (if i = 0 then 20 else currentProgress (i - 1) (length blocks))"
| "phaseProgress Finished = 100"

definition linked :: "FileTask list \<Rightarrow> Pipeline \<Rightarrow> bool" where
  "linked ts pl =
     (active pl \<longrightarrow>
        (\<forall>t \<in> set ts. id_t t = pid_of pl \<longrightarrow>
           status t = Processing \<and> progress t = phaseProgress (phase pl)))"

fun wf_phase :: "Phase \<Rightarrow> bool" where
  "wf_phase (AwaitTimer blocks i) = (i < length blocks)"
| "wf_phase _ = True"

definition inv6 :: "AppState \<Rightarrow> bool" where
  "inv6 s =
     (distinct (map id_t (tasks s)) \<and>
      (\<forall>j < length (pipelines s). \<forall>k < length (pipelines s).
          j \<noteq> k \<and> active (pipelines s ! j) \<and> active (pipelines s ! k) \<longrightarrow>
          pid_of (pipelines s ! j) \<noteq> pid_of (pipelines s ! k)) \<and>
      (\<forall>pl \<in> set (pipelines s). linked (tasks s) pl \<and> wf_phase (phase pl)) \<and>
      (\<forall>t \<in> set (tasks s). status t = Pending \<longrightarrow> progress t = 0))"

section \<open>Helper lemmas: geometry and sorting\<close>


lemma charCount_pos: "0 < charCount block"
  by (simp add: charCount_def)








lemma clamp_range:
  assumes "0 \<le> zoom" "cappedFontSize block zoom = Some c"
  shows "\<exists>fs. clampedFontSize block zoom = Some fs \<and> 9 * zoom \<le> fs \<and> fs \<le> 48 * zoom"
  using assms by (simp add: clampedFontSize_def minFs_def maxFs_def)

lemma capped_defined:
  assumes "0 \<le> area block zoom"
  shows "\<exists>c. cappedFontSize block zoom = Some c"
proof -
  have "0 \<le> (area block zoom * 0.90) / real (charCount block)"
    using assms charCount_pos[of block] by (intro divide_nonneg_pos) simp_all
  then have "\<exists>d. densityFontSize block zoom = Some d"
    by (simp add: densityFontSize_def Math_sqrt_def)
  then show ?thesis by (auto simp: cappedFontSize_def)
qed

lemma zoom_range: "0.5 \<le> zoomAfter clicks \<and> zoomAfter clicks \<le> 3"
proof -
  have "0.5 \<le> z \<and> z \<le> 3 \<Longrightarrow> 0.5 \<le> fold setZoom cs z \<and> fold setZoom cs z \<le> 3" for cs z
  proof (induction cs arbitrary: z)
    case Nil then show ?case by simp
  next
    case (Cons c cs)
    have "0.5 \<le> setZoom c z \<and> setZoom c z \<le> 3" using Cons.prems by (cases c) auto
    then show ?case using Cons.IH by simp
  qed
  then show ?thesis by (simp add: zoomAfter_def)
qed

section \<open>The claims about the geometry engine and the render order\<close>



text \<open>
  C4, as amended. For every zoom factor that is not negative (the view keeps it between
  0.5 and 3, \<open>zoom_range\<close>) and every box whose area is not negative (in particular every
  box with \<open>ymin \<le> ymax\<close> and \<open>xmin \<le> xmax\<close>), any text and any block type, the font
  size is a number in the closed interval from \<open>9 * zoom\<close> to \<open>48 * zoom\<close>, and for a
  heading it is at least \<open>14 * zoom\<close>.
\<close>

theorem font_size_range:
  assumes "0 \<le> zoom" and "0 \<le> area block zoom"
  shows "\<exists>fs. estimatedFontSize block zoom = Some fs \<and> 9 * zoom \<le> fs \<and> fs \<le> 48 * zoom \<and>
           (type_b block = Some Heading \<longrightarrow> 14 * zoom \<le> fs)"
proof -
  obtain c where "cappedFontSize block zoom = Some c"
    using capped_defined[OF assms(2)] by blast
  then obtain fs where fs: "clampedFontSize block zoom = Some fs" "9 * zoom \<le> fs" "fs \<le> 48 * zoom"
    using clamp_range[OF assms(1)] by blast
  show ?thesis using fs assms(1) by (auto simp: estimatedFontSize_def)
qed

theorem font_size_range_witness:
  "(0::real) \<le> 1 \<and> 0 \<le> area (ex_block ''Title'' (10, 10, 20, 50) (Some Heading)) 1 \<and>
   (\<exists>fs. estimatedFontSize (ex_block ''Title'' (10, 10, 20, 50) (Some Heading)) 1 = Some fs \<and>
      9 \<le> fs \<and> fs \<le> 48 \<and> 14 \<le> fs)"
proof -
  have a: "0 \<le> area (ex_block ''Title'' (10, 10, 20, 50) (Some Heading)) 1"
    by (simp add: ex_block_def area_def boxWidthPx_def boxHeightPx_def width_def height_def)
  have t: "type_b (ex_block ''Title'' (10, 10, 20, 50) (Some Heading)) = Some Heading"
    by (simp add: ex_block_def)
  show ?thesis
    using font_size_range [of 1 "ex_block ''Title'' (10, 10, 20, 50) (Some Heading)"] a t
    by simp
qed

text \<open>
  C4 as stated (any box) fails: for a box whose \<open>ymax\<close> is below its \<open>ymin\<close> the area is
  negative, \<^verbatim>\<open>Math.sqrt\<close> returns \<^verbatim>\<open>NaN\<close>, and \<^verbatim>\<open>Math.min\<close> and \<^verbatim>\<open>Math.max\<close>
  hand it through the clamp and the heading boost: the font size is \<^verbatim>\<open>NaN\<close> (\<open>None\<close>),
  no number of the interval.
\<close>

theorem font_size_nan_counterexample:
  "area (ex_block ''inverted box'' (10, 10, 5, 50) None) 1 < 0 \<and>
   estimatedFontSize (ex_block ''inverted box'' (10, 10, 5, 50) None) 1 = None \<and>
   estimatedFontSize (ex_block ''inverted box'' (10, 10, 5, 50) (Some Heading)) 1 = None"
  by (simp add: estimatedFontSize_def clampedFontSize_def cappedFontSize_def
      densityFontSize_def Math_sqrt_def area_def boxWidthPx_def boxHeightPx_def width_def
      height_def charCount_def ex_block_def)



section \<open>Helper lemmas: updates of one task\<close>

lemma mapTask_ids:
  assumes "\<And>t. id_t (g t) = id_t t"
  shows "map id_t (mapTask pid g ts) = map id_t ts"
  by (induction ts) (simp_all add: mapTask_def assms)

lemma mapTask_length [simp]: "length (mapTask pid g ts) = length ts"
  by (simp add: mapTask_def)

lemma mapTask_absent:
  assumes "pid \<notin> set (map id_t ts)"
  shows "mapTask pid g ts = ts"
  using assms by (induction ts) (auto simp: mapTask_def)

lemma findTask_mapTask:
  assumes "\<And>t. id_t (g t) = id_t t"
  shows "findTask tid (mapTask pid g ts) =
         (if tid = pid then map_option g (findTask pid ts) else findTask tid ts)"
  by (induction ts) (auto simp: mapTask_def findTask_def assms)

lemma processingCount_mapTask:
  assumes "\<And>t. status (g t) = Processing \<Longrightarrow> status t = Processing"
  shows "processingCount (mapTask pid g ts) \<le> processingCount ts"
proof (induction ts)
  case Nil
  then show ?case by (simp add: mapTask_def processingCount_def)
next
  case (Cons t ts)
  then show ?case
    using assms[of t] by (auto simp: mapTask_def processingCount_def)
qed

lemma quiet_mapTask:
  assumes "\<And>t. id_t (g t) = id_t t"
    and "\<And>t. status (g t) = Processing \<Longrightarrow> status t = Processing"
  shows "quiet (mapTask pid g)"
  unfolding quiet_def using mapTask_ids[of g, OF assms(1)] processingCount_mapTask[of g, OF assms(2)]
  by blast

lemma quiet_markExtracting: "quiet (markExtracting pid)"
  unfolding markExtracting_def by (rule quiet_mapTask) simp_all

lemma quiet_markTranslating: "quiet (markTranslating pid)"
  unfolding markTranslating_def by (rule quiet_mapTask) simp_all

lemma quiet_appendBlock: "quiet (appendBlock pid blocks i now)"
  unfolding appendBlock_def by (rule quiet_mapTask) simp_all

lemma quiet_markCompleted: "quiet (markCompleted pid)"
  unfolding markCompleted_def by (rule quiet_mapTask) simp_all

lemma quiet_markError: "quiet (markError pid msg)"
  unfolding markError_def by (rule quiet_mapTask) simp_all

lemma quiet_removeTask: "processingCount (removeTask tid ts) \<le> processingCount ts"
  by (induction ts) (auto simp: removeTask_def processingCount_def)

lemma quiet_loopHead: "list_all quiet (fst (loopHead pid blocks i))"
  by (simp add: loopHead_def quiet_markCompleted)

lemma quiet_catchBlock: "list_all quiet (fst (catchBlock pid e))"
  by (simp add: catchBlock_def quiet_markError)

lemma quiet_resume: "list_all quiet (fst (resume p ph outcome))"
proof (cases ph)
  case AwaitRead
  then show ?thesis
    by (cases outcome)
       (auto simp: quiet_markExtracting quiet_catchBlock split: sum.splits)
next
  case (AwaitAdapter req)
  then show ?thesis
    by (cases outcome)
       (auto simp: quiet_markTranslating quiet_catchBlock quiet_loopHead
             split: sum.splits Response.splits)
next
  case (AwaitTimer blocks i)
  then show ?thesis
    by (cases outcome) (auto simp: quiet_appendBlock quiet_loopHead)
next
  case Finished
  then show ?thesis by (cases outcome) auto
qed

section \<open>The admission invariant\<close>

lemma setTasks_quiet:
  "list_all quiet ws \<Longrightarrow> inv2 ts \<Longrightarrow> list_all inv2 (setTasks ws ts)"
proof (induction ws arbitrary: ts)
  case Nil
  then show ?case by simp
next
  case (Cons w ws)
  from Cons.prems have q: "quiet w" and qs: "list_all quiet ws" by simp_all
  from q Cons.prems(2) have "inv2 (w ts)"
    unfolding quiet_def inv2_def by (metis le_trans)
  with Cons.IH[OF qs] show ?case by simp
qed

lemma processingCount_none:
  "\<not> list_ex (\<lambda>t. status t = Processing) ts \<Longrightarrow> processingCount ts = 0"
  by (induction ts) (auto simp: processingCount_def)

lemma processingCount_markProcessing:
  assumes "distinct (map id_t ts)" and "\<not> list_ex (\<lambda>t. status t = Processing) ts"
  shows "processingCount (markProcessing pid ts) \<le> 1"
  using assms
proof (induction ts)
  case Nil
  then show ?case by (simp add: markProcessing_def mapTask_def processingCount_def)
next
  case (Cons t ts)
  show ?case
  proof (cases "id_t t = pid")
    case True
    with Cons.prems have "pid \<notin> set (map id_t ts)" by auto
    then have same: "markProcessing pid ts = ts"
      unfolding markProcessing_def by (rule mapTask_absent)
    from Cons.prems have zero: "processingCount ts = 0" by (intro processingCount_none) simp
    have "processingCount (markProcessing pid (t # ts)) =
          Suc (processingCount (markProcessing pid ts))"
      using True by (simp add: markProcessing_def mapTask_def processingCount_def)
    then show ?thesis by (simp add: same zero)
  next
    case False
    with Cons show ?thesis
      by (simp add: markProcessing_def mapTask_def processingCount_def)
  qed
qed

lemma markProcessing_ids: "map id_t (markProcessing pid ts) = map id_t ts"
  unfolding markProcessing_def by (rule mapTask_ids) simp

lemma newTask_id: "id_t (newTask lang x) = fst (snd x)"
  by (cases x) (simp add: newTask_def)

lemma newTask_status: "status (newTask lang x) = Pending"
  by (cases x) (simp add: newTask_def)

lemma drawn_FilesSelected: "drawn (FilesSelected files) = map (\<lambda>x. fst (snd x)) files"
  by (simp add: drawn_def case_prod_unfold)

lemma processingCount_append_new:
  "processingCount (ts @ map (newTask lang) files) = processingCount ts"
  by (simp add: processingCount_def filter_empty_conv newTask_status)

lemma ids_append_new:
  "map id_t (ts @ map (newTask lang) files) = map id_t ts @ drawn (FilesSelected files)"
  by (simp add: drawn_FilesSelected newTask_id comp_def)

lemma fresh_tasks:
  "fresh e s \<Longrightarrow> distinct (drawn e) \<and> set (drawn e) \<inter> set (map id_t (tasks s)) = {}"
  by (auto simp: fresh_def list_all_iff)

lemma writes_inv2:
  assumes "fresh e s" and "inv2 (tasks s)"
  shows "list_all inv2 (writes e s)"
proof (cases e)
  case (FilesSelected files)
  from fresh_tasks[OF assms(1)] assms(2) show ?thesis
    unfolding FilesSelected writes_def inv2_def
    by (auto simp: processingCount_append_new ids_append_new simp del: map_append)
next
  case (TaskClicked tid)
  then show ?thesis by (simp add: writes_def)
next
  case (TargetLangChanged lang)
  then show ?thesis by (simp add: writes_def)
next
  case (RemoveClicked tid)
  have "inv2 (removeTask tid (tasks s))"
    using assms(2) quiet_removeTask[of tid "tasks s"]
    unfolding inv2_def by (simp add: removeTask_def distinct_map_filter)
  then show ?thesis using RemoveClicked by (simp add: writes_def)
next
  case EffectRun
  show ?thesis
  proof (cases "list_ex (\<lambda>t. status t = Processing) (tasks s)")
    case True
    then show ?thesis using EffectRun by (simp add: writes_def effect_def)
  next
    case False
    show ?thesis
    proof (cases "find (\<lambda>t. status t = Pending) (tasks s)")
      case None
      then show ?thesis using EffectRun False by (simp add: writes_def effect_def processQueue_def)
    next
      case (Some p)
      have "inv2 (markProcessing (id_t p) (tasks s))"
        using assms(2) False processingCount_markProcessing[of "tasks s" "id_t p"]
        unfolding inv2_def by (simp add: markProcessing_ids)
      then show ?thesis
        using EffectRun False Some by (simp add: writes_def effect_def processQueue_def)
    qed
  qed
next
  case (Resumed k outcome)
  show ?thesis
    unfolding Resumed writes_def
    by (rule setTasks_quiet) (simp_all add: quiet_resume assms(2))
qed

lemma tasks_fire: "tasks (fire e s) = last (tasks s # writes e s)"
  by (simp add: fire_def)

lemma last_history: "last (tasks s # history evs s) = tasks (run evs s)"
proof (induction evs arbitrary: s)
  case Nil
  then show ?case by simp
next
  case (Cons e es)
  have "last (tasks s # writes e s @ history es (fire e s)) =
        last (last (tasks s # writes e s) # history es (fire e s))"
    by (cases "history es (fire e s)") (simp_all add: last_append)
  then show ?case using Cons.IH[of "fire e s"] by (simp add: tasks_fire)
qed

lemma fire_inv2:
  assumes "fresh e s" and "inv2 (tasks s)"
  shows "inv2 (tasks (fire e s))"
proof -
  have "list_all inv2 (tasks s # writes e s)"
    using writes_inv2[OF assms] assms(2) by simp
  then have "inv2 (last (tasks s # writes e s))"
    unfolding list_all_iff using last_in_set[of "tasks s # writes e s"] by blast
  then show ?thesis by (simp add: tasks_fire)
qed

lemma history_inv2:
  "collision_free evs s \<Longrightarrow> inv2 (tasks s) \<Longrightarrow> list_all inv2 (history evs s)"
proof (induction evs arbitrary: s)
  case Nil
  then show ?case by simp
next
  case (Cons e es)
  from Cons.prems have f: "fresh e s" and c: "collision_free es (fire e s)" by simp_all
  have "list_all inv2 (history es (fire e s))"
    using Cons.IH[OF c fire_inv2[OF f Cons.prems(2)]] .
  with writes_inv2[OF f Cons.prems(2)] show ?case by simp
qed

lemma inv2_initial: "inv2 (tasks initial)"
  by (simp add: inv2_def initial_def processingCount_def)

lemma effect_gate:
  "list_ex (\<lambda>t. status t = Processing) (tasks s) \<Longrightarrow> fire EffectRun s = s"
  by (simp add: fire_def writes_def effect_def)

text \<open>
  C2. In every run from the empty list whose random ids do not collide, every value the
  task list takes has at most one task with status processing, and when a task is
  processing the effect starts nothing: it makes no update and adds no pipeline.
\<close>

theorem one_processing:
  assumes "collision_free evs initial"
  shows "list_all (\<lambda>ts. processingCount ts \<le> 1) (tasks initial # history evs initial) \<and>
         processingCount (tasks (run evs initial)) \<le> 1 \<and>
         (list_ex (\<lambda>t. status t = Processing) (tasks (run evs initial)) \<longrightarrow>
            fire EffectRun (run evs initial) = run evs initial)"
proof -
  have all: "list_all inv2 (tasks initial # history evs initial)"
    using history_inv2[OF assms inv2_initial] inv2_initial by simp
  then have a: "list_all (\<lambda>ts. processingCount ts \<le> 1) (tasks initial # history evs initial)"
    unfolding list_all_iff inv2_def by blast
  have "inv2 (last (tasks initial # history evs initial))"
    using all unfolding list_all_iff
    using last_in_set[of "tasks initial # history evs initial"] by blast
  then have "inv2 (tasks (run evs initial))"
    by (simp only: last_history)
  then have b: "processingCount (tasks (run evs initial)) \<le> 1"
    by (simp add: inv2_def)
  from a b effect_gate show ?thesis by blast
qed

theorem one_processing_witness:
  "collision_free ex_run initial \<and>
   list_all (\<lambda>ts. processingCount ts \<le> 1) (tasks initial # history ex_run initial) \<and>
   processingCount (tasks (run ex_run initial)) \<le> 1 \<and>
   map (map status) (history (take 2 ex_run) initial) =
     [[Pending, Pending], [Processing, Pending]] \<and>
   fire EffectRun (run (take 2 ex_run) initial) = run (take 2 ex_run) initial"
proof -
  have c: "collision_free ex_run initial"
    by code_simp
  have c2: "collision_free (take 2 ex_run) initial"
    by code_simp
  have h: "map (map status) (history (take 2 ex_run) initial) =
     [[Pending, Pending], [Processing, Pending]]"
    by code_simp
  have p: "list_ex (\<lambda>t. status t = Processing) (tasks (run (take 2 ex_run) initial))"
    by code_simp
  from one_processing [OF c] one_processing [OF c2] c h p show ?thesis
    by blast
qed

section \<open>Helper lemmas: the progress formula and the pipeline steps\<close>

lemma currentProgress_div:
  "currentProgress i n = 30 + (60 * int (i + 1)) div int n"
proof -
  have "(real (i + 1) / real n) * 60 = real_of_int (60 * int (i + 1)) / real_of_int (int n)"
    by simp
  then have "\<lfloor>(real (i + 1) / real n) * 60\<rfloor> = (60 * int (i + 1)) div int n"
    by (simp only: floor_divide_of_int_eq)
  then show ?thesis by (simp add: currentProgress_def)
qed

lemma currentProgress_lower: "30 \<le> currentProgress i n"
  unfolding currentProgress_div
  by (simp add: pos_imp_zdiv_nonneg_iff div_int_pos_iff)

lemma currentProgress_mono: "i \<le> j \<Longrightarrow> currentProgress i n \<le> currentProgress j n"
proof (cases "n = 0")
  case True
  then show ?thesis by (simp add: currentProgress_div)
next
  case False
  assume "i \<le> j"
  then have "60 * int (i + 1) \<le> 60 * int (j + 1)" by simp
  then have "(60 * int (i + 1)) div int n \<le> (60 * int (j + 1)) div int n"
    using False by (intro zdiv_mono1) simp_all
  then show ?thesis by (simp only: currentProgress_div add_left_mono)
qed

lemma currentProgress_last: "0 < n \<Longrightarrow> currentProgress (n - 1) n = 90"
  unfolding currentProgress_div by simp

lemma currentProgress_upper: "i < n \<Longrightarrow> currentProgress i n \<le> 90"
  using currentProgress_mono[of i "n - 1" n] currentProgress_last[of n] by simp


lemma progress_leI:
  assumes "\<And>t t'. t \<in> set ts \<Longrightarrow> t' \<in> set ts' \<Longrightarrow> id_t t = id_t t' \<Longrightarrow> progress t \<le> progress t'"
  shows "progress_le ts ts'"
  using assms unfolding progress_le_def list_all_iff by blast

lemma same_id_same_task:
  assumes "distinct (map id_t ts)" and "t \<in> set ts" and "u \<in> set ts" and "id_t t = id_t u"
  shows "t = u"
  using assms by (meson distinct_map inj_onD)

lemma in_mapTask:
  assumes "t' \<in> set (mapTask pid g ts)"
  obtains u where "u \<in> set ts" and "t' = (if id_t u = pid then g u else u)"
  using assms by (auto simp: mapTask_def)

lemma in_mapTask_pid:
  assumes "t' \<in> set (mapTask pid g ts)" and "id_t t' = pid" and "\<And>t. id_t (g t) = id_t t"
  obtains u where "u \<in> set ts" and "id_t u = pid" and "t' = g u"
proof -
  from assms(1) obtain u where u: "u \<in> set ts" "t' = (if id_t u = pid then g u else u)"
    by (rule in_mapTask)
  with assms(2,3) have "id_t u = pid" by (auto split: if_splits)
  with u that show ?thesis by simp
qed

lemma in_mapTask_other:
  assumes "t' \<in> set (mapTask pid g ts)" and "id_t t' \<noteq> pid" and "\<And>t. id_t (g t) = id_t t"
  shows "t' \<in> set ts"
proof -
  from assms(1) obtain u where u: "u \<in> set ts" "t' = (if id_t u = pid then g u else u)"
    by (rule in_mapTask)
  with assms(2,3) have "id_t u \<noteq> pid" by (auto split: if_splits)
  with u show ?thesis by simp
qed

lemma progress_le_mapTask:
  assumes d: "distinct (map id_t ts)"
    and g_id: "\<And>t. id_t (g t) = id_t t"
    and up: "\<And>t. t \<in> set ts \<Longrightarrow> id_t t = pid \<Longrightarrow> progress t \<le> progress (g t)"
  shows "progress_le ts (mapTask pid g ts)"
proof (rule progress_leI)
  fix t t'
  assume t: "t \<in> set ts" and t': "t' \<in> set (mapTask pid g ts)" and same: "id_t t = id_t t'"
  from t' obtain u where u: "u \<in> set ts" "t' = (if id_t u = pid then g u else u)"
    by (rule in_mapTask)
  then have "id_t t' = id_t u" by (simp add: g_id)
  with same have "t = u" using same_id_same_task[OF d t u(1)] by simp
  with u up[OF t] show "progress t \<le> progress t'" by simp
qed

lemma mapTask_comp:
  assumes "\<And>t. id_t (g1 t) = id_t t"
  shows "mapTask pid g2 (mapTask pid g1 ts) = mapTask pid (\<lambda>t. g2 (g1 t)) ts"
  by (induction ts) (simp_all add: mapTask_def assms)

lemma successively_glue:
  "successively P (x # xs) \<Longrightarrow> successively P (last (x # xs) # ys) \<Longrightarrow>
   successively P (x # xs @ ys)"
  by (induction xs arbitrary: x) simp_all

lemma resume_cases:
  obtains
    (idle) "resume p ph outcome = ([], ph)"
  | (failed) msg where "ph \<noteq> Finished"
      and "resume p ph outcome = ([markError (id_t p) msg], Finished)"
  | (read) request where "ph = AwaitRead"
      and "resume p ph outcome = ([markExtracting (id_t p)], AwaitAdapter request)"
  | (empty) request where "ph = AwaitAdapter request"
      and "resume p ph outcome = ([markTranslating (id_t p), markCompleted (id_t p)], Finished)"
  | (stream) request blocks where "ph = AwaitAdapter request" and "blocks \<noteq> []"
      and "resume p ph outcome = ([markTranslating (id_t p)], AwaitTimer blocks 0)"
  | (step) blocks i now where "ph = AwaitTimer blocks i" and "i + 1 < length blocks"
      and "resume p ph outcome = ([appendBlock (id_t p) blocks i now], AwaitTimer blocks (i + 1))"
  | (final) blocks i now where "ph = AwaitTimer blocks i" and "i + 1 = length blocks"
      and "resume p ph outcome =
             ([appendBlock (id_t p) blocks i now, markCompleted (id_t p)], Finished)"
proof (cases ph)
  case AwaitRead
  show ?thesis
  proof (cases outcome)
    case (ReadSettled r)
    show ?thesis
    proof (cases "fileToBase64 (file_t p) r")
      case (Inl e)
      with AwaitRead ReadSettled failed[of "errorMessage e"] show ?thesis
        by (simp add: catchBlock_def)
    next
      case (Inr b)
      with AwaitRead ReadSettled read show ?thesis by simp
    qed
  qed (use AwaitRead idle in simp_all)
next
  case (AwaitAdapter request)
  show ?thesis
  proof (cases outcome)
    case (AdapterSettled r)
    show ?thesis
    proof (cases r)
      case (Inl e)
      with AwaitAdapter AdapterSettled failed[of "errorMessage e"] show ?thesis
        by (simp add: catchBlock_def)
    next
      case (Inr resp)
      show ?thesis
      proof (cases resp)
        case Null
        with Inr AwaitAdapter AdapterSettled failed[of "errorMessage invalidResponse"]
        show ?thesis by (simp add: catchBlock_def)
      next
        case NoBlocks
        with Inr AwaitAdapter AdapterSettled failed[of "errorMessage invalidResponse"]
        show ?thesis by (simp add: catchBlock_def)
      next
        case (Blocks blocks)
        show ?thesis
        proof (cases "blocks = []")
          case True
          with Blocks Inr AwaitAdapter AdapterSettled empty show ?thesis
            by (simp add: loopHead_def)
        next
          case False
          with Blocks Inr AwaitAdapter AdapterSettled stream[of request blocks] show ?thesis
            by (simp add: loopHead_def)
        qed
      qed
    qed
  qed (use AwaitAdapter idle in simp_all)
next
  case (AwaitTimer blocks i)
  show ?thesis
  proof (cases outcome)
    case (TimerFired now)
    consider "i + 1 < length blocks" | "i + 1 = length blocks" | "\<not> i < length blocks"
      by linarith
    then show ?thesis
    proof cases
      case 1
      with AwaitTimer TimerFired step[of blocks i now] show ?thesis
        by (simp add: loopHead_def)
    next
      case 2
      with AwaitTimer TimerFired final[of blocks i now] show ?thesis
        by (simp add: loopHead_def)
    next
      case 3
      with AwaitTimer TimerFired idle show ?thesis by simp
    qed
  qed (use AwaitTimer idle in simp_all)
next
  case Finished
  with idle show ?thesis by (cases outcome) simp_all
qed

lemma fire_Resumed:
  assumes "k < length (pipelines s)"
    and "resume (pendingTask (pipelines s ! k)) (phase (pipelines s ! k)) outcome = (ws, ph')"
  shows "writes (Resumed k outcome) s = setTasks ws (tasks s)"
    and "fire (Resumed k outcome) s =
           s\<lparr>pipelines := (pipelines s)[k := (pipelines s ! k)\<lparr>phase := ph'\<rparr>],
             tasks := last (tasks s # setTasks ws (tasks s))\<rparr>"
  using assms by (simp_all add: writes_def fire_def)

lemma fire_Resumed_idle:
  assumes "resume (pendingTask (pipelines s ! k)) (phase (pipelines s ! k)) outcome =
             ([], phase (pipelines s ! k))"
  shows "writes (Resumed k outcome) s = []" and "fire (Resumed k outcome) s = s"
proof -
  show "writes (Resumed k outcome) s = []"
    using assms by (simp add: writes_def)
  show "fire (Resumed k outcome) s = s"
  proof (cases "k < length (pipelines s)")
    case True
    have "(pipelines s)[k := (pipelines s ! k)\<lparr>phase := phase (pipelines s ! k)\<rparr>] = pipelines s"
      by (simp add: list_update_same_conv[OF True])
    with True assms show ?thesis by (simp add: fire_def writes_def)
  next
    case False
    then show ?thesis by (simp add: fire_def writes_def)
  qed
qed

lemma step_patch:
  assumes inv: "inv6 s" and k: "k < length (pipelines s)"
    and act: "active (pipelines s ! k)"
    and g_id: "\<And>t. id_t (g t) = id_t t"
    and g_ok: "\<And>t. status t = Processing \<Longrightarrow>
                 progress t = phaseProgress (phase (pipelines s ! k)) \<Longrightarrow>
                 status (g t) \<noteq> Pending \<and>
                 (ph' \<noteq> Finished \<longrightarrow>
                    status (g t) = Processing \<and> progress (g t) = phaseProgress ph')"
    and wf: "wf_phase ph'"
  shows "inv6 (s\<lparr>pipelines := (pipelines s)[k := (pipelines s ! k)\<lparr>phase := ph'\<rparr>],
                 tasks := mapTask (pid_of (pipelines s ! k)) g (tasks s)\<rparr>)"
proof -
  let ?pls = "pipelines s" and ?ts = "tasks s"
  let ?pl = "?pls ! k"
  let ?pid = "pid_of ?pl"
  let ?pls' = "?pls[k := ?pl\<lparr>phase := ph'\<rparr>]"
  let ?ts' = "mapTask ?pid g ?ts"
  from inv have d: "distinct (map id_t ?ts)"
    and sep: "\<And>j i. j < length ?pls \<Longrightarrow> i < length ?pls \<Longrightarrow> j \<noteq> i \<Longrightarrow>
                active (?pls ! j) \<Longrightarrow> active (?pls ! i) \<Longrightarrow> pid_of (?pls ! j) \<noteq> pid_of (?pls ! i)"
    and lk: "\<And>pl. pl \<in> set ?pls \<Longrightarrow> linked ?ts pl \<and> wf_phase (phase pl)"
    and pend: "\<And>t. t \<in> set ?ts \<Longrightarrow> status t = Pending \<Longrightarrow> progress t = 0"
    unfolding inv6_def by blast+
  have plk: "?pl \<in> set ?pls" using k by simp
  have own: "status t = Processing \<and> progress t = phaseProgress (phase ?pl)"
    if "t \<in> set ?ts" "id_t t = ?pid" for t
    using lk[OF plk] act that unfolding linked_def by blast
  have pid': "pid_of (?pls' ! j) = pid_of (?pls ! j)" if "j < length ?pls" for j
    using that by (cases "j = k") (simp_all add: pid_of_def)
  have act': "active (?pls' ! j) \<Longrightarrow> active (?pls ! j)" if "j < length ?pls" for j
    using that act by (cases "j = k") simp_all
  have 1: "distinct (map id_t ?ts')"
    using d by (simp add: mapTask_ids[of g, OF g_id])
  have 2: "pid_of (?pls' ! j) \<noteq> pid_of (?pls' ! i)"
    if "j < length ?pls'" "i < length ?pls'" "j \<noteq> i" "active (?pls' ! j)" "active (?pls' ! i)" for j i
    using that sep[of j i] pid'[of j] pid'[of i] act'[of j] act'[of i] by simp
  have 3: "linked ?ts' pl \<and> wf_phase (phase pl)" if "pl \<in> set ?pls'" for pl
  proof -
    from that obtain j where j: "j < length ?pls" "pl = ?pls' ! j"
      by (metis in_set_conv_nth length_list_update)
    show ?thesis
    proof (cases "j = k")
      case True
      then have pl: "pl = ?pl\<lparr>phase := ph'\<rparr>" using j by simp
      have "status t' = Processing \<and> progress t' = phaseProgress ph'"
        if "active pl" "t' \<in> set ?ts'" "id_t t' = pid_of pl" for t'
      proof -
        from that(3) pl have "id_t t' = ?pid" by (simp add: pid_of_def)
        with that(2) obtain u where u: "u \<in> set ?ts" "id_t u = ?pid" "t' = g u"
          using in_mapTask_pid[of t' ?pid g ?ts] g_id by blast
        from that(1) pl have "ph' \<noteq> Finished" by (simp add: active_def)
        with g_ok own[OF u(1,2)] u(3) show ?thesis by blast
      qed
      then show ?thesis using pl wf unfolding linked_def by simp
    next
      case False
      then have pl: "pl = ?pls ! j" using j by simp
      then have mem: "pl \<in> set ?pls" using j by simp
      have "status t' = Processing \<and> progress t' = phaseProgress (phase pl)"
        if "active pl" "t' \<in> set ?ts'" "id_t t' = pid_of pl" for t'
      proof -
        have "pid_of pl \<noteq> ?pid"
          using sep[of j k] j(1) k False that(1) act pl by simp
        with that(3) have "id_t t' \<noteq> ?pid" by simp
        with that(2) have "t' \<in> set ?ts"
          using in_mapTask_other[of t' ?pid g ?ts] g_id by blast
        with lk[OF mem] that(1,3) show ?thesis unfolding linked_def by blast
      qed
      then show ?thesis using lk[OF mem] unfolding linked_def by blast
    qed
  qed
  have 4: "progress t' = 0" if "t' \<in> set ?ts'" "status t' = Pending" for t'
  proof -
    from that(1) obtain u where u: "u \<in> set ?ts" "t' = (if id_t u = ?pid then g u else u)"
      by (rule in_mapTask)
    show ?thesis
    proof (cases "id_t u = ?pid")
      case True
      with g_ok own[OF u(1)] u(2) that(2) show ?thesis by auto
    next
      case False
      with u pend that(2) show ?thesis by simp
    qed
  qed
  from 1 2 3 4 show ?thesis unfolding inv6_def by simp
qed

lemma own_task:
  assumes "inv6 s" and "k < length (pipelines s)" and "active (pipelines s ! k)"
    and "t \<in> set (tasks s)" and "id_t t = pid_of (pipelines s ! k)"
  shows "status t = Processing \<and> progress t = phaseProgress (phase (pipelines s ! k))"
proof -
  have "pipelines s ! k \<in> set (pipelines s)" using assms(2) by simp
  with assms(1) have "linked (tasks s) (pipelines s ! k)" unfolding inv6_def by blast
  with assms(3,4,5) show ?thesis unfolding linked_def by blast
qed

lemma one_write:
  assumes inv: "inv6 s" and k: "k < length (pipelines s)"
    and act: "active (pipelines s ! k)"
    and res: "resume (pendingTask (pipelines s ! k)) (phase (pipelines s ! k)) outcome =
                ([mapTask (pid_of (pipelines s ! k)) g], ph')"
    and g_id: "\<And>t. id_t (g t) = id_t t"
    and g_ok: "\<And>t. status t = Processing \<Longrightarrow>
                 progress t = phaseProgress (phase (pipelines s ! k)) \<Longrightarrow>
                 status (g t) \<noteq> Pending \<and>
                 (ph' \<noteq> Finished \<longrightarrow>
                    status (g t) = Processing \<and> progress (g t) = phaseProgress ph')"
    and mono: "\<And>t. status t = Processing \<Longrightarrow>
                 progress t = phaseProgress (phase (pipelines s ! k)) \<Longrightarrow>
                 progress t \<le> progress (g t)"
    and wf: "wf_phase ph'"
  shows "successively progress_le (tasks s # writes (Resumed k outcome) s) \<and>
         inv6 (fire (Resumed k outcome) s)"
proof -
  from inv have d: "distinct (map id_t (tasks s))" unfolding inv6_def by blast
  have "progress_le (tasks s) (mapTask (pid_of (pipelines s ! k)) g (tasks s))"
    using own_task[OF inv k act] mono by (intro progress_le_mapTask[OF d g_id]) blast
  then have chain: "successively progress_le (tasks s # writes (Resumed k outcome) s)"
    by (simp add: fire_Resumed(1)[OF k res])
  have "inv6 (fire (Resumed k outcome) s)"
    using step_patch[OF inv k act g_id g_ok wf] by (simp add: fire_Resumed(2)[OF k res])
  with chain show ?thesis by blast
qed

lemma two_writes:
  assumes inv: "inv6 s" and k: "k < length (pipelines s)"
    and act: "active (pipelines s ! k)"
    and res: "resume (pendingTask (pipelines s ! k)) (phase (pipelines s ! k)) outcome =
                ([mapTask (pid_of (pipelines s ! k)) g1, mapTask (pid_of (pipelines s ! k)) g2],
                 ph')"
    and g1_id: "\<And>t. id_t (g1 t) = id_t t"
    and g2_id: "\<And>t. id_t (g2 t) = id_t t"
    and g_ok: "\<And>t. status t = Processing \<Longrightarrow>
                 progress t = phaseProgress (phase (pipelines s ! k)) \<Longrightarrow>
                 status (g2 (g1 t)) \<noteq> Pending \<and>
                 (ph' \<noteq> Finished \<longrightarrow>
                    status (g2 (g1 t)) = Processing \<and> progress (g2 (g1 t)) = phaseProgress ph')"
    and mono: "\<And>t. status t = Processing \<Longrightarrow>
                 progress t = phaseProgress (phase (pipelines s ! k)) \<Longrightarrow>
                 progress t \<le> progress (g1 t) \<and> progress (g1 t) \<le> progress (g2 (g1 t))"
    and wf: "wf_phase ph'"
  shows "successively progress_le (tasks s # writes (Resumed k outcome) s) \<and>
         inv6 (fire (Resumed k outcome) s)"
proof -
  let ?pid = "pid_of (pipelines s ! k)"
  let ?l1 = "mapTask ?pid g1 (tasks s)"
  from inv have d: "distinct (map id_t (tasks s))" unfolding inv6_def by blast
  then have d1: "distinct (map id_t ?l1)" by (simp add: mapTask_ids[of g1, OF g1_id])
  have first: "progress_le (tasks s) ?l1"
    using own_task[OF inv k act] mono by (intro progress_le_mapTask[OF d g1_id]) blast
  have second: "progress_le ?l1 (mapTask ?pid g2 ?l1)"
  proof (rule progress_le_mapTask[OF d1 g2_id])
    fix t' assume "t' \<in> set ?l1" and "id_t t' = ?pid"
    then obtain u where u: "u \<in> set (tasks s)" "id_t u = ?pid" "t' = g1 u"
      using in_mapTask_pid[of t' ?pid g1 "tasks s"] g1_id by blast
    with own_task[OF inv k act u(1,2)] mono show "progress t' \<le> progress (g2 t')" by blast
  qed
  from first second
  have chain: "successively progress_le (tasks s # writes (Resumed k outcome) s)"
    by (simp add: fire_Resumed(1)[OF k res])
  have g12_id: "\<And>t. id_t (g2 (g1 t)) = id_t t" by (simp add: g1_id g2_id)
  have "inv6 (fire (Resumed k outcome) s)"
    using step_patch[OF inv k act g12_id g_ok wf]
    by (simp add: fire_Resumed(2)[OF k res] mapTask_comp[of g1, OF g1_id])
  with chain show ?thesis by blast
qed

lemma phaseProgress_next:
  "phaseProgress (AwaitTimer blocks i) \<le> currentProgress i (length blocks)"
proof (cases "i = 0")
  case True
  then show ?thesis using currentProgress_lower[of 0 "length blocks"] by simp
next
  case False
  then show ?thesis using currentProgress_mono[of "i - 1" i "length blocks"] by simp
qed

lemma step_Resumed:
  assumes inv: "inv6 s"
  shows "successively progress_le (tasks s # writes (Resumed k outcome) s) \<and>
         inv6 (fire (Resumed k outcome) s)"
proof (cases "k < length (pipelines s)")
  case False
  then show ?thesis using inv by (simp add: writes_def fire_def)
next
  case k: True
  let ?pl = "pipelines s ! k"
  let ?p = "pendingTask ?pl"
  have pid: "id_t ?p = pid_of ?pl" by (simp add: pid_of_def)
  show ?thesis
  proof (cases rule: resume_cases[of ?p "phase ?pl" outcome])
    case idle
    then show ?thesis using inv fire_Resumed_idle[of s k outcome] by simp
  next
    case (failed msg)
    then have act: "active ?pl" by (simp add: active_def)
    show ?thesis
      by (rule one_write[OF inv k act failed(2)[unfolded markError_def pid]]) simp_all
  next
    case (read request)
    then have act: "active ?pl" by (simp add: active_def)
    show ?thesis
      by (rule one_write[OF inv k act read(2)[unfolded markExtracting_def pid]])
         (simp_all add: read(1))
  next
    case (empty request)
    then have act: "active ?pl" by (simp add: active_def)
    show ?thesis
      by (rule two_writes[OF inv k act
            empty(2)[unfolded markTranslating_def markCompleted_def pid]])
         (simp_all add: empty(1))
  next
    case (stream request blocks)
    then have act: "active ?pl" by (simp add: active_def)
    show ?thesis
      by (rule one_write[OF inv k act stream(3)[unfolded markTranslating_def pid]])
         (simp_all add: stream(1,2))
  next
    case (step blocks i now)
    then have act: "active ?pl" by (simp add: active_def)
    show ?thesis
      by (rule one_write[OF inv k act step(3)[unfolded appendBlock_def pid]])
         (use step(1,2) phaseProgress_next[of blocks i] in simp_all)
  next
    case (final blocks i now)
    then have act: "active ?pl" by (simp add: active_def)
    have up: "currentProgress i (length blocks) \<le> 100"
      using currentProgress_upper[of i "length blocks"] final(2) by simp
    show ?thesis
      by (rule two_writes[OF inv k act
            final(3)[unfolded appendBlock_def markCompleted_def pid]])
         (use final(1) up phaseProgress_next[of blocks i] in simp_all)
  qed
qed

lemma inv6_cong:
  assumes "tasks s' = tasks s" and "pipelines s' = pipelines s" and "inv6 s"
  shows "inv6 s'"
  using assms unfolding inv6_def by simp

lemma progress_le_same:
  assumes "distinct (map id_t ts)"
  shows "progress_le ts ts"
proof (rule progress_leI)
  fix t t' assume "t \<in> set ts" "t' \<in> set ts" "id_t t = id_t t'"
  with same_id_same_task[OF assms] have "t = t'" by blast
  then show "progress t \<le> progress t'" by simp
qed

lemma step_FilesSelected:
  assumes inv: "inv6 s" and fr: "fresh (FilesSelected files) s"
  shows "successively progress_le (tasks s # writes (FilesSelected files) s) \<and>
         inv6 (fire (FilesSelected files) s)"
proof (cases "files = []")
  case True
  then show ?thesis using inv by (simp add: writes_def fire_def)
next
  case False
  let ?new = "map (newTask (defaultTargetLang s)) files"
  let ?ts' = "tasks s @ ?new"
  from inv have d: "distinct (map id_t (tasks s))"
    and sep: "\<forall>j < length (pipelines s). \<forall>k < length (pipelines s).
          j \<noteq> k \<and> active (pipelines s ! j) \<and> active (pipelines s ! k) \<longrightarrow>
          pid_of (pipelines s ! j) \<noteq> pid_of (pipelines s ! k)"
    and lk: "\<And>pl. pl \<in> set (pipelines s) \<Longrightarrow> linked (tasks s) pl \<and> wf_phase (phase pl)"
    and pend: "\<And>t. t \<in> set (tasks s) \<Longrightarrow> status t = Pending \<Longrightarrow> progress t = 0"
    unfolding inv6_def by blast+
  have ids_new: "map id_t ?new = drawn (FilesSelected files)"
    by (simp add: drawn_FilesSelected newTask_id comp_def)
  from fr have dn: "distinct (drawn (FilesSelected files))"
    and off_tasks: "\<And>rid. rid \<in> set (drawn (FilesSelected files)) \<Longrightarrow> rid \<notin> set (map id_t (tasks s))"
    and off_pls: "\<And>rid pl. rid \<in> set (drawn (FilesSelected files)) \<Longrightarrow> pl \<in> set (pipelines s) \<Longrightarrow>
                    rid \<noteq> pid_of pl"
    unfolding fresh_def list_all_iff pid_of_def by auto
  have new_id: "id_t t \<in> set (drawn (FilesSelected files))" if "t \<in> set ?new" for t
    using that ids_new by (metis image_eqI set_map)
  have d': "distinct (map id_t ?ts')"
    using d dn off_tasks ids_new by (auto simp del: map_map)
  have le: "progress_le (tasks s) ?ts'"
  proof (rule progress_leI)
    fix t t' assume t: "t \<in> set (tasks s)" and t': "t' \<in> set ?ts'" and same: "id_t t = id_t t'"
    have "t' \<notin> set ?new"
    proof
      assume "t' \<in> set ?new"
      from new_id[OF this] have "id_t t' \<notin> set (map id_t (tasks s))" by (rule off_tasks)
      moreover from t same have "id_t t' \<in> set (map id_t (tasks s))"
        by (metis image_eqI set_map)
      ultimately show False by blast
    qed
    with t' have "t' \<in> set (tasks s)" by auto
    with same_id_same_task[OF d t this same] show "progress t \<le> progress t'" by simp
  qed
  have lk': "linked ?ts' pl \<and> wf_phase (phase pl)" if "pl \<in> set (pipelines s)" for pl
  proof -
    have "t \<in> set (tasks s)" if "t \<in> set ?ts'" "id_t t = pid_of pl" for t
    proof -
      have "t \<notin> set ?new"
      proof
        assume "t \<in> set ?new"
        from new_id[OF this] off_pls[of "id_t t" pl] \<open>pl \<in> set (pipelines s)\<close> that(2)
        show False by simp
      qed
      with that(1) show ?thesis by auto
    qed
    with lk[OF that] show ?thesis unfolding linked_def by blast
  qed
  have pend': "progress t = 0" if "t \<in> set ?ts'" "status t = Pending" for t
  proof (cases "t \<in> set (tasks s)")
    case True
    with pend that(2) show ?thesis by blast
  next
    case False
    with that(1) obtain x where "t = newTask (defaultTargetLang s) x" by auto
    then show ?thesis by (cases x) (simp add: newTask_def)
  qed
  have w: "writes (FilesSelected files) s = [?ts']"
    using False by (simp add: writes_def)
  have ft: "tasks (fire (FilesSelected files) s) = ?ts'"
    and fp: "pipelines (fire (FilesSelected files) s) = pipelines s"
    using False by (simp_all add: fire_def writes_def)
  have "inv6 (fire (FilesSelected files) s)"
    unfolding inv6_def ft fp using d' sep lk' pend' by blast
  with le w show ?thesis by simp
qed

lemma step_RemoveClicked:
  assumes inv: "inv6 s"
  shows "successively progress_le (tasks s # writes (RemoveClicked tid) s) \<and>
         inv6 (fire (RemoveClicked tid) s)"
proof (cases "activeTaskId s = Some tid \<and> tid \<in> set (map id_t (tasks s))")
  case False
  then have "writes (RemoveClicked tid) s = []" and "fire (RemoveClicked tid) s = s"
    by (auto simp: writes_def fire_def)
  with inv show ?thesis by simp
next
  case True
  let ?ts' = "removeTask tid (tasks s)"
  from inv have d: "distinct (map id_t (tasks s))" unfolding inv6_def by blast
  have sub: "set ?ts' \<subseteq> set (tasks s)" by (auto simp: removeTask_def)
  have d': "distinct (map id_t ?ts')"
    using d by (simp add: removeTask_def distinct_map_filter)
  have le: "progress_le (tasks s) ?ts'"
  proof (rule progress_leI)
    fix t t' assume "t \<in> set (tasks s)" "t' \<in> set ?ts'" "id_t t = id_t t'"
    with sub same_id_same_task[OF d] have "t = t'" by blast
    then show "progress t \<le> progress t'" by simp
  qed
  have w: "writes (RemoveClicked tid) s = [?ts']"
    using True by (simp add: writes_def)
  have ft: "tasks (fire (RemoveClicked tid) s) = ?ts'"
    and fp: "pipelines (fire (RemoveClicked tid) s) = pipelines s"
    using True by (simp_all add: fire_def writes_def)
  have "inv6 (fire (RemoveClicked tid) s)"
    using inv sub d' unfolding inv6_def ft fp linked_def by blast
  with le w show ?thesis by simp
qed

lemma step_EffectRun:
  assumes inv: "inv6 s"
  shows "successively progress_le (tasks s # writes EffectRun s) \<and> inv6 (fire EffectRun s)"
proof (cases "effect (tasks s) = ([], [])")
  case True
  then have "writes EffectRun s = []" and "fire EffectRun s = s"
    by (simp_all add: writes_def fire_def)
  with inv show ?thesis by simp
next
  case False
  then obtain p where p: "find (\<lambda>t. status t = Pending) (tasks s) = Some p"
    and eff: "effect (tasks s) = ([markProcessing (id_t p)], [\<lparr>pendingTask = p, phase = AwaitRead\<rparr>])"
    by (auto simp: effect_def processQueue_def split: if_splits option.splits)
  let ?pid = "id_t p"
  let ?g = "\<lambda>t. t\<lparr>status := Processing, detailedStatus := ''Performing OCR Analysis...'',
                    progress := 5\<rparr>"
  let ?new = "\<lparr>pendingTask = p, phase = AwaitRead\<rparr>"
  let ?ts' = "mapTask ?pid ?g (tasks s)"
  let ?pls' = "pipelines s @ [?new]"
  from p have pin: "p \<in> set (tasks s)" and ppend: "status p = Pending"
    by (auto simp: find_Some_iff)
  from inv have d: "distinct (map id_t (tasks s))"
    and sep: "\<And>j k. j < length (pipelines s) \<Longrightarrow> k < length (pipelines s) \<Longrightarrow> j \<noteq> k \<Longrightarrow>
          active (pipelines s ! j) \<Longrightarrow> active (pipelines s ! k) \<Longrightarrow>
          pid_of (pipelines s ! j) \<noteq> pid_of (pipelines s ! k)"
    and lk: "\<And>pl. pl \<in> set (pipelines s) \<Longrightarrow> linked (tasks s) pl \<and> wf_phase (phase pl)"
    and pend: "\<And>t. t \<in> set (tasks s) \<Longrightarrow> status t = Pending \<Longrightarrow> progress t = 0"
    unfolding inv6_def by blast+
  have g_id: "\<And>t. id_t (?g t) = id_t t" by simp
  have other: "pid_of pl \<noteq> ?pid" if "pl \<in> set (pipelines s)" "active pl" for pl
  proof
    assume "pid_of pl = ?pid"
    with lk[OF that(1)] that(2) pin have "status p = Processing"
      unfolding linked_def by auto
    with ppend show False by simp
  qed
  have le: "progress_le (tasks s) ?ts'"
  proof (rule progress_le_mapTask[OF d g_id])
    fix t assume "t \<in> set (tasks s)" "id_t t = ?pid"
    with same_id_same_task[OF d _ pin] have "t = p" by blast
    with pend[OF pin ppend] show "progress t \<le> progress (?g t)" by simp
  qed
  have d': "distinct (map id_t ?ts')" using d by (simp add: mapTask_ids[of ?g, OF g_id])
  have sep': "pid_of (?pls' ! j) \<noteq> pid_of (?pls' ! k)"
    if "j < length ?pls'" "k < length ?pls'" "j \<noteq> k" "active (?pls' ! j)" "active (?pls' ! k)"
    for j k
  proof -
    from that(1,2) have "j < length (pipelines s) \<or> j = length (pipelines s)"
      and "k < length (pipelines s) \<or> k = length (pipelines s)"
      by (simp_all add: less_Suc_eq)
    with that(3) consider "j < length (pipelines s)" "k < length (pipelines s)"
      | "j < length (pipelines s)" "k = length (pipelines s)"
      | "j = length (pipelines s)" "k < length (pipelines s)"
      by blast
    then show ?thesis
    proof cases
      case 1
      with sep[of j k] that show ?thesis by (simp add: nth_append)
    next
      case 2
      with that(4) have "active (pipelines s ! j)" by (simp add: nth_append)
      with other[of "pipelines s ! j"] 2 show ?thesis by (simp add: nth_append pid_of_def)
    next
      case 3
      with that(5) have "active (pipelines s ! k)" by (simp add: nth_append)
      with other[of "pipelines s ! k"] 3 show ?thesis
        by (auto simp: nth_append pid_of_def)
    qed
  qed
  have lk': "linked ?ts' pl \<and> wf_phase (phase pl)" if "pl \<in> set ?pls'" for pl
  proof (cases "pl = ?new")
    case True
    have "status t' = Processing \<and> progress t' = 5"
      if "t' \<in> set ?ts'" "id_t t' = ?pid" for t'
    proof -
      from that obtain u where "u \<in> set (tasks s)" "t' = ?g u"
        using in_mapTask_pid[of t' ?pid ?g "tasks s"] by auto
      then show ?thesis by simp
    qed
    with True show ?thesis unfolding linked_def by (simp add: pid_of_def)
  next
    case False
    with that have mem: "pl \<in> set (pipelines s)" by simp
    have "status t' = Processing \<and> progress t' = phaseProgress (phase pl)"
      if "active pl" "t' \<in> set ?ts'" "id_t t' = pid_of pl" for t'
    proof -
      from other[OF mem that(1)] that(3) have "id_t t' \<noteq> ?pid" by simp
      with that(2) have "t' \<in> set (tasks s)"
        using in_mapTask_other[of t' ?pid ?g "tasks s"] by auto
      with lk[OF mem] that(1,3) show ?thesis unfolding linked_def by blast
    qed
    with lk[OF mem] show ?thesis unfolding linked_def by blast
  qed
  have pend': "progress t' = 0" if "t' \<in> set ?ts'" "status t' = Pending" for t'
  proof -
    from that(1) obtain u where u: "u \<in> set (tasks s)" "t' = (if id_t u = ?pid then ?g u else u)"
      by (rule in_mapTask)
    with that(2) have "t' = u" by (auto split: if_splits)
    with u(1) pend that(2) show ?thesis by simp
  qed
  have w: "writes EffectRun s = [?ts']"
    using eff by (simp add: writes_def markProcessing_def)
  have ft: "tasks (fire EffectRun s) = ?ts'" and fp: "pipelines (fire EffectRun s) = ?pls'"
    using eff by (simp_all add: fire_def writes_def markProcessing_def)
  have "inv6 (fire EffectRun s)"
    unfolding inv6_def ft fp using d' sep' lk' pend' by blast
  with le w show ?thesis by simp
qed

lemma step_any:
  assumes "inv6 s" and "fresh e s"
  shows "successively progress_le (tasks s # writes e s) \<and> inv6 (fire e s)"
proof (cases e)
  case (FilesSelected files)
  with assms step_FilesSelected show ?thesis by blast
next
  case (TaskClicked tid)
  then have "writes e s = []" and "tasks (fire e s) = tasks s"
    and "pipelines (fire e s) = pipelines s"
    by (simp_all add: writes_def fire_def)
  with assms(1) inv6_cong[of "fire e s" s] show ?thesis by simp
next
  case (TargetLangChanged lang)
  then have "writes e s = []" and "tasks (fire e s) = tasks s"
    and "pipelines (fire e s) = pipelines s"
    by (simp_all add: writes_def fire_def)
  with assms(1) inv6_cong[of "fire e s" s] show ?thesis by simp
next
  case (RemoveClicked tid)
  with assms(1) step_RemoveClicked show ?thesis by blast
next
  case EffectRun
  with assms(1) step_EffectRun show ?thesis by blast
next
  case (Resumed k outcome)
  with assms(1) step_Resumed show ?thesis by blast
qed

lemma history_monotone:
  "inv6 s \<Longrightarrow> collision_free evs s \<Longrightarrow> successively progress_le (tasks s # history evs s)"
proof (induction evs arbitrary: s)
  case Nil
  then show ?case by simp
next
  case (Cons e es)
  from Cons.prems have f: "fresh e s" and c: "collision_free es (fire e s)" by simp_all
  from step_any[OF Cons.prems(1) f]
  have one: "successively progress_le (tasks s # writes e s)" and inv': "inv6 (fire e s)"
    by blast+
  have "successively progress_le (tasks (fire e s) # history es (fire e s))"
    using Cons.IH[OF inv' c] .
  then have "successively progress_le (last (tasks s # writes e s) # history es (fire e s))"
    by (simp only: tasks_fire)
  from successively_glue[OF one this] show ?case by simp
qed

lemma inv6_initial: "inv6 initial"
  by (simp add: inv6_def initial_def)

lemma markError_progress: "map progress (markError pid msg ts) = map progress ts"
  by (induction ts) (simp_all add: markError_def mapTask_def)

text \<open>
  C6. In every run from the empty list whose random ids do not collide, each write to the
  task list leaves the progress of every task it keeps at least as large as before: from
  the 0 of the submission through 5, 20, the streaming values and 100; the update that
  marks a task failed leaves every progress as it is.
\<close>

theorem progress_monotone:
  assumes "collision_free evs initial"
  shows "successively progress_le (tasks initial # history evs initial) \<and>
         (\<forall>pid msg ts. map progress (markError pid msg ts) = map progress ts)"
  using history_monotone[OF inv6_initial assms] markError_progress by blast

theorem progress_monotone_witness:
  "collision_free ex_run initial \<and>
   successively progress_le (tasks initial # history ex_run initial) \<and>
   map (map progress) (history ex_run initial) =
     [[0, 0], [5, 0], [20, 0], [20, 0], [50, 0], [70, 0], [90, 0], [100, 0],
      [100, 5], [100, 20], [100, 20]] \<and>
   map (map status) (history (drop 10 ex_run) (run (take 10 ex_run) initial)) =
     [[Completed, Error]]"
proof -
  have c: "collision_free ex_run initial"
    by code_simp
  have h: "map (map progress) (history ex_run initial) =
     [[0, 0], [5, 0], [20, 0], [20, 0], [50, 0], [70, 0], [90, 0], [100, 0],
      [100, 5], [100, 20], [100, 20]]"
    by code_simp
  have e: "map (map status) (history (drop 10 ex_run) (run (take 10 ex_run) initial)) =
     [[Completed, Error]]"
    by code_simp
  from progress_monotone [OF c] c h e show ?thesis by blast
qed

section \<open>The failed transition and the request to the service\<close>

lemma resume_writes:
  assumes "w \<in> set (fst (resume p ph outcome))"
  shows "(\<exists>msg. w = markError (id_t p) msg) \<or> w = markExtracting (id_t p) \<or>
         w = markTranslating (id_t p) \<or> w = markCompleted (id_t p) \<or>
         (\<exists>blocks i now. w = appendBlock (id_t p) blocks i now)"
  using assms by (cases rule: resume_cases[of p ph outcome]) auto

lemma mapTask_nth:
  assumes "i < length ts"
  shows "mapTask pid g ts ! i = (if id_t (ts ! i) = pid then g (ts ! i) else ts ! i)"
  using assms by (simp add: mapTask_def)

text \<open>
  C10. Whenever an update of a pipeline turns a task that was not failed into a failed one,
  the task is the old task with only status, detailedStatus and warnings replaced: its id,
  its progress, the blocks streamed so far and every other field are unchanged (and the
  warnings are a single message).
\<close>

theorem failed_frame:
  assumes "w \<in> set (fst (handle (Resumed k outcome) s))"
    and "i < length ts"
    and "status (ts ! i) \<noteq> Error" and "status (w ts ! i) = Error"
  shows "length (w ts) = length ts \<and>
         w ts ! i = (ts ! i)\<lparr>status := Error,
                              detailedStatus := detailedStatus (w ts ! i),
                              warnings := warnings (w ts ! i)\<rparr> \<and>
         id_t (w ts ! i) = id_t (ts ! i) \<and>
         progress (w ts ! i) = progress (ts ! i) \<and>
         translatedBlocks (w ts ! i) = translatedBlocks (ts ! i) \<and>
         length (warnings (w ts ! i)) = 1"
proof -
  from assms(1) obtain p ph where "w \<in> set (fst (resume p ph outcome))"
    by (auto split: if_splits)
  from resume_writes[OF this]
  consider (err) msg where "w = markError (id_t p) msg"
    | (other) g where "w = mapTask (id_t p) g" and "\<And>t. status (g t) = Error \<Longrightarrow> status t = Error"
    unfolding markExtracting_def markTranslating_def markCompleted_def appendBlock_def
    by (elim disjE exE) (fastforce+)
  then show ?thesis
  proof cases
    case err
    with assms(2,3,4) show ?thesis
      by (auto simp: markError_def mapTask_nth split: if_splits)
  next
    case other
    with assms(2,3,4) have False
      by (auto simp: mapTask_nth split: if_splits)
    then show ?thesis ..
  qed
qed

theorem failed_frame_witness:
  "markError ''z8m4w7c2e'' ''fetch failed'' \<in>
     set (fst (handle (Resumed 1 (AdapterSettled (Inl (Thrown (Some ''fetch failed'')))))
                 (run (take 10 ex_run) initial))) \<and>
   (1::nat) < length (tasks (run (take 10 ex_run) initial)) \<and>
   status (tasks (run (take 10 ex_run) initial) ! 1) = Processing \<and>
   status (tasks (run (take 11 ex_run) initial) ! 1) = Error \<and>
   progress (tasks (run (take 11 ex_run) initial) ! 1) = 20 \<and>
   progress (tasks (run (take 10 ex_run) initial) ! 1) = 20 \<and>
   warnings (tasks (run (take 11 ex_run) initial) ! 1) = [''fetch failed'']"
proof -
  let ?s = "run (take 10 ex_run) initial"
  let ?w = "markError ''z8m4w7c2e'' ''fetch failed''"
  have pl: "1 < length (pipelines ?s)"
    by code_simp
  have p: "id_t (pendingTask (pipelines ?s ! 1)) = ''z8m4w7c2e''"
    by code_simp
  have ph: "phase (pipelines ?s ! 1) =
      AwaitAdapter (Some ''JVBERi0xLjcK'', ''application/pdf'', ''Chinese (Simplified)'')"
    by code_simp
  have m: "errorMessage (Thrown (Some ''fetch failed'')) = ''fetch failed''"
    by (simp add: errorMessage_def)
  have w: "?w \<in> set (fst (handle (Resumed 1 (AdapterSettled (Inl (Thrown (Some ''fetch failed''))))) ?s))"
    using pl by (simp add: ph[unfolded One_nat_def] p[unfolded One_nat_def] m catchBlock_def)
  have i: "(1::nat) < length (tasks ?s)"
    by code_simp
  have st: "status (tasks ?s ! 1) = Processing"
    by code_simp
  have nx: "tasks (run (take 11 ex_run) initial) = ?w (tasks ?s)"
    by code_simp
  have st': "status (?w (tasks ?s) ! 1) = Error"
    unfolding nx[symmetric] by code_simp
  have pr: "progress (tasks ?s ! 1) = 20"
    by code_simp
  have ne: "status (tasks ?s ! 1) \<noteq> Error"
    using st by simp
  note th = failed_frame [OF w i ne st']
  from th have "progress (?w (tasks ?s) ! 1) = progress (tasks ?s ! 1)"
    by blast
  then have pr': "progress (tasks (run (take 11 ex_run) initial) ! 1) = 20"
    by (simp only: nx pr)
  have wn: "warnings (tasks (run (take 11 ex_run) initial) ! 1) = [''fetch failed'']"
    by code_simp
  from w i st st' pr pr' wn nx show ?thesis by simp
qed

lemma split_js_no_sep: "sep \<notin> set xs \<Longrightarrow> split_js sep xs = [xs]"
  by (induction xs) auto

lemma split_js_at_sep:
  "sep \<notin> set xs \<Longrightarrow> split_js sep (xs @ sep # ys) = xs # split_js sep ys"
  by (induction xs) auto

lemma fileToBase64_OnLoad:
  assumes "CHR '','' \<notin> set (type_f f)" and "CHR '','' \<notin> set (content_f f)"
  shows "fileToBase64 f OnLoad = Inr (Some (content_f f))"
proof -
  have "CHR '','' \<notin> set (''data:'' @ type_f f @ '';base64'')"
    using assms(1) by simp
  then have "split_js CHR '','' ((''data:'' @ type_f f @ '';base64'') @ CHR '','' # content_f f) =
        (''data:'' @ type_f f @ '';base64'') # split_js CHR '','' (content_f f)"
    by (rule split_js_at_sep)
  moreover have "readAsDataURL f = (''data:'' @ type_f f @ '';base64'') @ CHR '','' # content_f f"
    by (simp add: readAsDataURL_def)
  ultimately show ?thesis
    using assms(2) by (simp add: fileToBase64_def split_js_no_sep)
qed

text \<open>
  C9, as amended. For every task, PDF or image alike, the data the pipeline passes to the
  analysis service after a successful read is the base64 payload of the file's own data
  URL (the original bytes), together with the file's own MIME type and the label of the
  target language; the preview renderer takes no part in it.
\<close>

theorem adapter_gets_file:
  assumes "k < length (pipelines s)"
    and "phase (pipelines s ! k) = AwaitRead"
    and "p = pendingTask (pipelines s ! k)"
    and "CHR '','' \<notin> set (type_f (file_t p))"
    and "CHR '','' \<notin> set (content_f (file_t p))"
  shows "phase (pipelines (fire (Resumed k (ReadSettled OnLoad)) s) ! k) =
           AwaitAdapter (Some (content_f (file_t p)), type_f (file_t p),
                         targetLabel (targetLanguage p))"
  using assms by (simp add: fire_def fileToBase64_OnLoad)

theorem adapter_gets_file_witness:
  "1 < length (pipelines (run (take 9 ex_run) initial)) \<and>
   phase (pipelines (run (take 9 ex_run) initial) ! 1) = AwaitRead \<and>
   file_t (pendingTask (pipelines (run (take 9 ex_run) initial) ! 1)) = ex_pdf \<and>
   type_f ex_pdf = ''application/pdf'' \<and>
   CHR '','' \<notin> set (type_f ex_pdf) \<and> CHR '','' \<notin> set (content_f ex_pdf) \<and>
   phase (pipelines (fire (Resumed 1 (ReadSettled OnLoad)) (run (take 9 ex_run) initial)) ! 1) =
     AwaitAdapter (Some (content_f ex_pdf), ''application/pdf'', ''Chinese (Simplified)'')"
proof -
  have k: "1 < length (pipelines (run (take 9 ex_run) initial))"
    by code_simp
  have ph: "phase (pipelines (run (take 9 ex_run) initial) ! 1) = AwaitRead"
    by code_simp
  have f: "file_t (pendingTask (pipelines (run (take 9 ex_run) initial) ! 1)) = ex_pdf"
    by code_simp
  have l: "targetLabel (targetLanguage (pendingTask (pipelines (run (take 9 ex_run) initial) ! 1))) =
           ''Chinese (Simplified)''"
    by code_simp
  have ty: "type_f ex_pdf = ''application/pdf''"
    by (simp add: ex_pdf_def ex_file_def)
  have c1: "CHR '','' \<notin> set (type_f ex_pdf)"
    by (simp add: ex_pdf_def ex_file_def)
  have c2: "CHR '','' \<notin> set (content_f ex_pdf)"
    by (simp add: ex_pdf_def ex_file_def)
  from adapter_gets_file [OF k ph refl, unfolded f l, OF c1 c2] k ph f ty c1 c2
  show ?thesis by simp
qed

text \<open>
  C9 as stated fails for a PDF: the preview of a PDF task is a JPEG of page 1 at scale 2
  and quality 0.95, but the request of the same task carries the PDF's own bytes with
  the MIME type application/pdf, not a JPEG.
\<close>

theorem adapter_gets_pdf_counterexample:
  "type_f (file_t (pendingTask (pipelines (run (take 10 ex_run) initial) ! 1))) =
     ''application/pdf'' \<and>
   loadPreview (pendingTask (pipelines (run (take 10 ex_run) initial) ! 1)) =
     PdfPage 1 2 ''image/jpeg'' (95 / 100) \<and>
   phase (pipelines (run (take 10 ex_run) initial) ! 1) =
     AwaitAdapter (Some ''JVBERi0xLjcK'', ''application/pdf'', ''Chinese (Simplified)'') \<and>
   content_f ex_pdf = ''JVBERi0xLjcK'' \<and>
   ''application/pdf'' \<noteq> ''image/jpeg''"
proof -
  have a: "type_f (file_t (pendingTask (pipelines (run (take 10 ex_run) initial) ! 1))) =
     ''application/pdf''"
    by code_simp
  have b: "phase (pipelines (run (take 10 ex_run) initial) ! 1) =
     AwaitAdapter (Some ''JVBERi0xLjcK'', ''application/pdf'', ''Chinese (Simplified)'')"
    by code_simp
  have c: "loadPreview (pendingTask (pipelines (run (take 10 ex_run) initial) ! 1)) =
     PdfPage 1 2 ''image/jpeg'' (95 / 100)"
    unfolding loadPreview_def a by simp
  have d: "content_f ex_pdf = ''JVBERi0xLjcK''"
    by (simp add: ex_pdf_def ex_file_def)
  from a b c d show ?thesis by simp
qed

section \<open>Streaming, failure isolation and removal\<close>

lemma findTask_mapTask_self:
  assumes "\<And>t. id_t (g t) = id_t t" and "findTask pid ts = Some t"
  shows "findTask pid (mapTask pid g ts) = Some (g t)"
  using assms(2) by (simp add: findTask_mapTask[of g, OF assms(1)])

lemma findTask_in: "findTask tid ts = Some t \<Longrightarrow> t \<in> set ts \<and> id_t t = tid"
  unfolding findTask_def by (auto simp: find_Some_iff)

lemma findTask_present:
  "tid \<in> set (map id_t ts) \<Longrightarrow> \<exists>t. findTask tid ts = Some t"
  unfolding findTask_def by (cases "find (\<lambda>t. id_t t = tid) ts") (auto simp: find_None_iff)

lemma three_blocks_trace:
  "map (map progress)
     (history [FilesSelected [(f, rid, url)], EffectRun,
               Resumed 0 (ReadSettled OnLoad),
               Resumed 0 (AdapterSettled (Inr (Blocks [b1, b2, b3]))),
               Resumed 0 (TimerFired n1), Resumed 0 (TimerFired n2),
               Resumed 0 (TimerFired n3)] initial) =
   [[0], [5], [20], [20], [50], [70], [90], [100]]"
  by (simp add: initial_def writes_def fire_def effect_def processQueue_def newTask_def
      markProcessing_def markExtracting_def markTranslating_def appendBlock_def
      markCompleted_def mapTask_def fileToBase64_def loopHead_def currentProgress_def)

lemma currentProgress_spec:
  "currentProgress j n = 30 + \<lfloor>60 * (real (j + 1) / real n)\<rfloor>"
  by (simp add: currentProgress_def mult.commute)

text \<open>
  C1, as amended. While a pipeline streams N blocks into a task that is still in the
  list, the write that appends the i-th block sets the task's progress to
  30 + floor(60 * (i / N)) and adds the block; when it appends the last block the
  progress is 90, and only the next write sets 100 and the status completed. For N = 3
  the progress takes the values 0, 5, 20, 20, 50, 70, 90 and 100, in this order (the
  value 30 is never written).
\<close>

theorem streaming_progress:
  assumes k: "k < length (pipelines s)"
    and ph: "phase (pipelines s ! k) = AwaitTimer blocks j" and j: "j < length blocks"
    and pid: "pid = id_t (pendingTask (pipelines s ! k))"
    and t: "findTask pid (tasks s) = Some t"
  shows "(\<exists>l rest. writes (Resumed k (TimerFired now)) s = l # rest \<and>
            map_option progress (findTask pid l) =
              Some (30 + \<lfloor>60 * (real (j + 1) / real (length blocks))\<rfloor>) \<and>
            map_option translatedBlocks (findTask pid l) =
              Some (translatedBlocks t @ [newBlock blocks j now]) \<and>
            map_option status (findTask pid l) = Some (status t) \<and>
            (j + 1 < length blocks \<longrightarrow> rest = []) \<and>
            (j + 1 = length blocks \<longrightarrow>
               map_option progress (findTask pid l) = Some 90 \<and>
               (\<exists>l'. rest = [l'] \<and>
                  map_option progress (findTask pid l') = Some 100 \<and>
                  map_option status (findTask pid l') = Some Completed))) \<and>
         (\<forall>f rid url b1 b2 b3 n1 n2 n3.
            map (map progress)
              (history [FilesSelected [(f, rid, url)], EffectRun,
                        Resumed 0 (ReadSettled OnLoad),
                        Resumed 0 (AdapterSettled (Inr (Blocks [b1, b2, b3]))),
                        Resumed 0 (TimerFired n1), Resumed 0 (TimerFired n2),
                        Resumed 0 (TimerFired n3)] initial) =
            [[0], [5], [20], [20], [50], [70], [90], [100]])"
proof -
  let ?g = "\<lambda>t. t\<lparr>translatedBlocks := translatedBlocks t @ [newBlock blocks j now],
                    progress := currentProgress j (length blocks),
                    detailedStatus :=
                      ''Translating block '' @ show_nat (j + 1) @ ''/'' @
                      show_nat (length blocks) @ '' ('' @
                      show_int (currentProgress j (length blocks)) @ ''%)''\<rparr>"
  let ?c = "\<lambda>t. t\<lparr>status := Completed, detailedStatus := ''Translation Completed'',
                    progress := 100\<rparr>"
  let ?l = "appendBlock pid blocks j now (tasks s)"
  let ?l' = "markCompleted pid ?l"
  have fl: "findTask pid ?l = Some (?g t)"
    unfolding appendBlock_def by (rule findTask_mapTask_self[OF _ t]) simp
  have fl': "findTask pid ?l' = Some (?c (?g t))"
    unfolding markCompleted_def by (rule findTask_mapTask_self[OF _ fl]) simp
  have w: "writes (Resumed k (TimerFired now)) s =
           ?l # (if j + 1 < length blocks then [] else [?l'])"
    using k ph j pid by (simp add: writes_def loopHead_def)
  have last: "currentProgress j (length blocks) = 90" if "j + 1 = length blocks"
  proof -
    from that have "j = length blocks - 1" by simp
    moreover from j have "0 < length blocks" by (cases blocks) simp_all
    ultimately have "j = length blocks - 1" and "0 < length blocks" by blast+
    then show ?thesis using currentProgress_last[of "length blocks"] by simp
  qed
  have "writes (Resumed k (TimerFired now)) s = ?l # (if j + 1 < length blocks then [] else [?l']) \<and>
            map_option progress (findTask pid ?l) =
              Some (30 + \<lfloor>60 * (real (j + 1) / real (length blocks))\<rfloor>) \<and>
            map_option translatedBlocks (findTask pid ?l) =
              Some (translatedBlocks t @ [newBlock blocks j now]) \<and>
            map_option status (findTask pid ?l) = Some (status t) \<and>
            (j + 1 < length blocks \<longrightarrow> (if j + 1 < length blocks then [] else [?l']) = []) \<and>
            (j + 1 = length blocks \<longrightarrow>
               map_option progress (findTask pid ?l) = Some 90 \<and>
               (\<exists>l'. (if j + 1 < length blocks then [] else [?l']) = [l'] \<and>
                  map_option progress (findTask pid l') = Some 100 \<and>
                  map_option status (findTask pid l') = Some Completed))"
    using w last by (simp add: fl fl' currentProgress_spec)
  then have first: "\<exists>l rest. writes (Resumed k (TimerFired now)) s = l # rest \<and>
            map_option progress (findTask pid l) =
              Some (30 + \<lfloor>60 * (real (j + 1) / real (length blocks))\<rfloor>) \<and>
            map_option translatedBlocks (findTask pid l) =
              Some (translatedBlocks t @ [newBlock blocks j now]) \<and>
            map_option status (findTask pid l) = Some (status t) \<and>
            (j + 1 < length blocks \<longrightarrow> rest = []) \<and>
            (j + 1 = length blocks \<longrightarrow>
               map_option progress (findTask pid l) = Some 90 \<and>
               (\<exists>l'. rest = [l'] \<and>
                  map_option progress (findTask pid l') = Some 100 \<and>
                  map_option status (findTask pid l') = Some Completed))"
    by blast
  from first three_blocks_trace show ?thesis by blast
qed

theorem streaming_progress_witness:
  "0 < length (pipelines (run (take 7 ex_run) initial)) \<and>
   phase (pipelines (run (take 7 ex_run) initial) ! 0) = AwaitTimer ex_response 2 \<and>
   2 < length ex_response \<and>
   id_t (pendingTask (pipelines (run (take 7 ex_run) initial) ! 0)) = ''k3x9p2q1a'' \<and>
   findTask ''k3x9p2q1a'' (tasks (run (take 7 ex_run) initial)) =
     Some (tasks (run (take 7 ex_run) initial) ! 0) \<and>
   (\<exists>l l'. writes (Resumed 0 (TimerFired 1060)) (run (take 7 ex_run) initial) = [l, l'] \<and>
      map_option progress (findTask ''k3x9p2q1a'' l) = Some 90 \<and>
      map_option status (findTask ''k3x9p2q1a'' l) = Some Processing \<and>
      map_option progress (findTask ''k3x9p2q1a'' l') = Some 100 \<and>
      map_option status (findTask ''k3x9p2q1a'' l') = Some Completed)"
proof -
  let ?s = "run (take 7 ex_run) initial"
  have k: "0 < length (pipelines ?s)"
    by code_simp
  have ph: "phase (pipelines ?s ! 0) = AwaitTimer ex_response 2"
    by code_simp
  have j: "2 < length ex_response"
    by code_simp
  have pid: "''k3x9p2q1a'' = id_t (pendingTask (pipelines ?s ! 0))"
    by code_simp
  have t: "findTask ''k3x9p2q1a'' (tasks ?s) = Some (tasks ?s ! 0)"
    by code_simp
  have st: "status (tasks ?s ! 0) = Processing"
    by code_simp
  have n: "2 + 1 = length ex_response"
    by code_simp
  from streaming_progress [OF k ph j pid t, of 1060] n st
  have "\<exists>l l'. writes (Resumed 0 (TimerFired 1060)) ?s = [l, l'] \<and>
      map_option progress (findTask ''k3x9p2q1a'' l) = Some 90 \<and>
      map_option status (findTask ''k3x9p2q1a'' l) = Some Processing \<and>
      map_option progress (findTask ''k3x9p2q1a'' l') = Some 100 \<and>
      map_option status (findTask ''k3x9p2q1a'' l') = Some Completed"
    by (simp only:) blast
  with k ph j pid t show ?thesis by simp
qed

text \<open>
  C1 as stated fails in one point: for N = 3 the progress never takes the value 30. The
  write before the first block leaves it at 20, and the first block sets 50.
\<close>

theorem progress_30_counterexample:
  "length ex_response = 3 \<and>
   map (map progress) (history (take 8 ex_run) initial) =
     [[0, 0], [5, 0], [20, 0], [20, 0], [50, 0], [70, 0], [90, 0], [100, 0]] \<and>
   30 \<notin> set (concat (map (map progress) (history (take 8 ex_run) initial)))"
proof -
  have a: "length ex_response = 3"
    by code_simp
  have b: "map (map progress) (history (take 8 ex_run) initial) =
     [[0, 0], [5, 0], [20, 0], [20, 0], [50, 0], [70, 0], [90, 0], [100, 0]]"
    by code_simp
  have c: "30 \<notin> set (concat (map (map progress) (history (take 8 ex_run) initial)))"
    unfolding b by simp
  from a b c show ?thesis by blast
qed

lemma only_processing:
  assumes "processingCount ts \<le> 1" and "t \<in> set ts" and "status t = Processing"
    and "u \<in> set ts" and "status u = Processing"
  shows "u = t"
proof -
  let ?xs = "filter (\<lambda>t. status t = Processing) ts"
  from assms have tu: "t \<in> set ?xs" "u \<in> set ?xs" by simp_all
  from assms(1) have "length ?xs \<le> 1" by (simp add: processingCount_def)
  then consider "?xs = []" | x where "?xs = [x]"
    by (cases ?xs) (auto simp: length_Suc_conv)
  then show ?thesis
  proof cases
    case 1
    with tu show ?thesis by simp
  next
    case 2
    with tu show ?thesis by simp
  qed
qed

lemma effect_starts:
  assumes none: "\<not> list_ex (\<lambda>u. status u = Processing) (tasks s)"
    and q: "find (\<lambda>u. status u = Pending) (tasks s) = Some q"
  shows "map_option status (findTask (id_t q) (tasks (fire EffectRun s))) = Some Processing \<and>
         pipelines (fire EffectRun s) = pipelines s @ [\<lparr>pendingTask = q, phase = AwaitRead\<rparr>]"
proof -
  from q have "q \<in> set (tasks s)" by (auto simp: find_Some_iff)
  then have "id_t q \<in> set (map id_t (tasks s))" by simp
  then obtain q' where q': "findTask (id_t q) (tasks s) = Some q'"
    using findTask_present by blast
  have ft: "tasks (fire EffectRun s) = markProcessing (id_t q) (tasks s)"
    and fp: "pipelines (fire EffectRun s) = pipelines s @ [\<lparr>pendingTask = q, phase = AwaitRead\<rparr>]"
    using none q by (simp_all add: fire_def writes_def effect_def processQueue_def)
  have "findTask (id_t q) (markProcessing (id_t q) (tasks s)) =
        Some (q'\<lparr>status := Processing, detailedStatus := ''Performing OCR Analysis...'',
                 progress := 5\<rparr>)"
    unfolding markProcessing_def by (rule findTask_mapTask_self[OF _ q']) simp
  with ft fp show ?thesis by simp
qed

lemma stale_write:
  assumes "w \<in> set (fst (resume p ph outcome))" and "id_t p \<notin> set (map id_t ts)"
  shows "w ts = ts"
  using resume_writes[OF assms(1)] assms(2)
  unfolding markError_def markExtracting_def markTranslating_def markCompleted_def
    appendBlock_def
  by (auto simp: mapTask_absent)

lemma setTasks_noop:
  "\<forall>w \<in> set ws. w ts = ts \<Longrightarrow> list_all (\<lambda>l. l = ts) (setTasks ws ts)"
  by (induction ws) simp_all

lemma stale_pipeline:
  assumes "tid \<notin> set (map id_t (tasks s))" and "k < length (pipelines s)"
    and "id_t (pendingTask (pipelines s ! k)) = tid"
  shows "list_all (\<lambda>l. l = tasks s) (writes (Resumed k outcome) s) \<and>
         tasks (fire (Resumed k outcome) s) = tasks s"
proof -
  let ?ws = "fst (resume (pendingTask (pipelines s ! k)) (phase (pipelines s ! k)) outcome)"
  have "\<forall>w \<in> set ?ws. w (tasks s) = tasks s"
    using stale_write[of _ "pendingTask (pipelines s ! k)"] assms(1,3) by blast
  then have all: "list_all (\<lambda>l. l = tasks s) (setTasks ?ws (tasks s))"
    by (rule setTasks_noop)
  then have w: "list_all (\<lambda>l. l = tasks s) (writes (Resumed k outcome) s)"
    using assms(2) by (simp add: writes_def)
  then have "last (tasks s # writes (Resumed k outcome) s) = tasks s"
    unfolding list_all_iff using last_in_set[of "writes (Resumed k outcome) s"]
    by (cases "writes (Resumed k outcome) s = []") auto
  with w show ?thesis by (simp add: tasks_fire)
qed

lemma setTasks_keeps_absent:
  "list_all quiet ws \<Longrightarrow> tid \<notin> set (map id_t ts) \<Longrightarrow>
   list_all (\<lambda>l. tid \<notin> set (map id_t l)) (setTasks ws ts)"
proof (induction ws arbitrary: ts)
  case Nil
  then show ?case by simp
next
  case (Cons w ws)
  from Cons.prems(1) have "map id_t (w ts) = map id_t ts" by (simp add: quiet_def)
  with Cons.prems(2) have "tid \<notin> set (map id_t (w ts))" by simp
  with Cons.IH[of "w ts"] Cons.prems(1) show ?case by simp
qed

lemma writes_keep_absent:
  assumes "tid \<notin> set (map id_t (tasks s))" and "tid \<notin> set (drawn e)"
  shows "list_all (\<lambda>l. tid \<notin> set (map id_t l)) (writes e s)"
proof (cases e)
  case (FilesSelected files)
  have "set (map id_t (tasks s @ map (newTask (defaultTargetLang s)) files)) =
        set (map id_t (tasks s)) \<union> set (drawn (FilesSelected files))"
    by (simp only: ids_append_new set_append)
  with assms FilesSelected
  have "tid \<notin> set (map id_t (tasks s @ map (newTask (defaultTargetLang s)) files))"
    by blast
  with FilesSelected show ?thesis
    by (simp add: writes_def del: map_append set_map set_append)
next
  case (TaskClicked x)
  then show ?thesis by (simp add: writes_def)
next
  case (TargetLangChanged x)
  then show ?thesis by (simp add: writes_def)
next
  case (RemoveClicked x)
  with assms(1) show ?thesis by (auto simp: writes_def removeTask_def)
next
  case EffectRun
  with assms(1) show ?thesis
    by (auto simp: writes_def effect_def processQueue_def markProcessing_ids
             split: option.splits simp del: set_map)
next
  case (Resumed k outcome)
  show ?thesis
    unfolding Resumed writes_def
    by (rule setTasks_keeps_absent) (use assms(1) quiet_resume in simp_all)
qed

lemma history_keeps_absent:
  "tid \<notin> set (map id_t (tasks s)) \<Longrightarrow> tid \<notin> set (concat (map drawn evs)) \<Longrightarrow>
   list_all (\<lambda>l. tid \<notin> set (map id_t l)) (history evs s)"
proof (induction evs arbitrary: s)
  case Nil
  then show ?case by simp
next
  case (Cons e es)
  from Cons.prems(2) have e: "tid \<notin> set (drawn e)" and es: "tid \<notin> set (concat (map drawn es))"
    by simp_all
  have w: "list_all (\<lambda>l. tid \<notin> set (map id_t l)) (writes e s)"
    using writes_keep_absent[OF Cons.prems(1) e] .
  then have "list_all (\<lambda>l. tid \<notin> set (map id_t l)) (tasks s # writes e s)"
    using Cons.prems(1) by simp
  then have "tid \<notin> set (map id_t (last (tasks s # writes e s)))"
    unfolding list_all_iff using last_in_set[of "tasks s # writes e s"] by blast
  then have "tid \<notin> set (map id_t (tasks (fire e s)))" unfolding tasks_fire .
  from Cons.IH[OF this es] w show ?case by simp
qed

lemma run_keeps_absent:
  assumes "tid \<notin> set (map id_t (tasks s))" and "tid \<notin> set (concat (map drawn evs))"
  shows "tid \<notin> set (map id_t (tasks (run evs s)))"
proof -
  have "list_all (\<lambda>l. tid \<notin> set (map id_t l)) (tasks s # history evs s)"
    using history_keeps_absent[OF assms] assms(1) by simp
  then have "tid \<notin> set (map id_t (last (tasks s # history evs s)))"
    unfolding list_all_iff using last_in_set[of "tasks s # history evs s"] by blast
  then show ?thesis unfolding last_history .
qed

lemma run_inv6: "inv6 s \<Longrightarrow> collision_free evs s \<Longrightarrow> inv6 (run evs s)"
proof (induction evs arbitrary: s)
  case Nil
  then show ?case by simp
next
  case (Cons e es)
  from Cons.prems have "fresh e s" and c: "collision_free es (fire e s)" by simp_all
  with step_any[OF Cons.prems(1)] have "inv6 (fire e s)" by blast
  from Cons.IH[OF this c] show ?case by simp
qed

lemma run_inv2: "inv2 (tasks s) \<Longrightarrow> collision_free evs s \<Longrightarrow> inv2 (tasks (run evs s))"
proof (induction evs arbitrary: s)
  case Nil
  then show ?case by simp
next
  case (Cons e es)
  from Cons.prems have f: "fresh e s" and c: "collision_free es (fire e s)" by simp_all
  from Cons.IH[OF fire_inv2[OF f Cons.prems(1)] c] show ?case by simp
qed

lemma reachable_one_processing:
  "collision_free evs initial \<Longrightarrow> processingCount (tasks (run evs initial)) \<le> 1"
  using run_inv2[OF inv2_initial] unfolding inv2_def by blast

lemma reachable_in_flight:
  assumes "collision_free evs initial" and "s = run evs initial"
    and "k < length (pipelines s)" and "phase (pipelines s ! k) \<noteq> Finished"
    and "findTask (id_t (pendingTask (pipelines s ! k))) (tasks s) = Some t"
  shows "status t = Processing"
proof -
  have inv: "inv6 s" unfolding assms(2) by (rule run_inv6[OF inv6_initial assms(1)])
  have act: "active (pipelines s ! k)" using assms(4) by (simp add: active_def)
  from findTask_in[OF assms(5)] have "t \<in> set (tasks s)"
    and "id_t t = pid_of (pipelines s ! k)"
    by (simp_all add: pid_of_def)
  with own_task[OF inv assms(3) act] show ?thesis by blast
qed

lemma errorMessage_cases:
  "errorMessage x \<noteq> [] \<and>
   (message_e x = None \<or> message_e x = Some [] \<longrightarrow> errorMessage x = ''Analysis failed'') \<and>
   (\<forall>m. message_e x = Some m \<and> m \<noteq> [] \<and> includes_js m ''API key'' \<longrightarrow>
        errorMessage x = ''Invalid API Key'') \<and>
   (\<forall>m. message_e x = Some m \<and> m \<noteq> [] \<and> \<not> includes_js m ''API key'' \<longrightarrow>
        errorMessage x = m)"
  by (cases x) (auto simp: errorMessage_def split: option.splits)

lemma errorMessage_invalidResponse:
  "errorMessage invalidResponse = ''Invalid response format from Analysis Engine''"
  by (simp add: errorMessage_def invalidResponse_def)

lemma markError_frees_slot:
  assumes t: "findTask pid ts = Some t" and st: "status t = Processing"
    and one: "processingCount ts \<le> 1"
  shows "\<not> list_ex (\<lambda>u. status u = Processing) (markError pid msg ts)"
proof
  assume "list_ex (\<lambda>u. status u = Processing) (markError pid msg ts)"
  then obtain u' where u': "u' \<in> set (markError pid msg ts)" "status u' = Processing"
    by (auto simp: list_ex_iff)
  from u'(1) obtain u where u: "u \<in> set ts"
    "u' = (if id_t u = pid
           then u\<lparr>status := Error, detailedStatus := ''Error encountered'', warnings := [msg]\<rparr>
           else u)"
    unfolding markError_def by (rule in_mapTask)
  with u'(2) have "id_t u \<noteq> pid" and "status u = Processing"
    by (auto split: if_splits)
  moreover from findTask_in[OF t] have "t \<in> set ts" "id_t t = pid" by simp_all
  ultimately show False using only_processing[OF one _ st u(1)] by auto
qed

text \<open>
  C7. In every state that a run without id collisions reaches: when the call of the
  analysis service is rejected, or answers without a block list, for a task that is
  still in the list, the task becomes failed and its warnings are exactly one message,
  the one the \<^verbatim>\<open>catch\<close> block computes from what was thrown. The message is never
  empty: it is the text "Invalid response format from Analysis Engine" for an answer
  without a block list, "Invalid API Key" when the thrown message mentions "API key",
  the thrown message itself when it has one, and "Analysis failed" otherwise. The
  pipeline ends, the other tasks are untouched and none is processing; so the next run
  of the effect puts the first pending task, if there is one, into processing and starts
  its pipeline.
\<close>

theorem failure_isolation:
  assumes cf: "collision_free evs initial" and s: "s = run evs initial"
    and k: "k < length (pipelines s)"
    and ph: "phase (pipelines s ! k) = AwaitAdapter request"
    and pid: "pid = id_t (pendingTask (pipelines s ! k))"
    and t: "findTask pid (tasks s) = Some t"
    and out: "outcome = Inl e \<or> outcome = Inr Null \<or> outcome = Inr NoBlocks"
    and thrown: "thrown = (if outcome = Inl e then e else invalidResponse)"
    and s': "s' = fire (Resumed k (AdapterSettled outcome)) s"
  shows "(\<exists>t'. findTask pid (tasks s') = Some t' \<and> status t' = Error \<and>
               length (warnings t') = 1 \<and>
               warnings t' = [errorMessage thrown] \<and>
               detailedStatus t' = ''Error encountered'' \<and>
               t' = t\<lparr>status := Error, detailedStatus := ''Error encountered'',
                       warnings := [errorMessage thrown]\<rparr>) \<and>
         errorMessage thrown \<noteq> [] \<and>
         (outcome \<noteq> Inl e \<longrightarrow>
            errorMessage thrown = ''Invalid response format from Analysis Engine'') \<and>
         (message_e thrown = None \<or> message_e thrown = Some [] \<longrightarrow>
            errorMessage thrown = ''Analysis failed'') \<and>
         (\<forall>m. message_e thrown = Some m \<and> m \<noteq> [] \<and> includes_js m ''API key'' \<longrightarrow>
            errorMessage thrown = ''Invalid API Key'') \<and>
         (\<forall>m. message_e thrown = Some m \<and> m \<noteq> [] \<and> \<not> includes_js m ''API key'' \<longrightarrow>
            errorMessage thrown = m) \<and>
         phase (pipelines s' ! k) = Finished \<and>
         length (tasks s') = length (tasks s) \<and>
         (\<forall>u \<in> set (tasks s). id_t u \<noteq> pid \<longrightarrow> u \<in> set (tasks s')) \<and>
         \<not> list_ex (\<lambda>u. status u = Processing) (tasks s') \<and>
         (\<forall>q. find (\<lambda>u. status u = Pending) (tasks s') = Some q \<longrightarrow>
            map_option status (findTask (id_t q) (tasks (fire EffectRun s'))) =
              Some Processing \<and>
            pipelines (fire EffectRun s') =
              pipelines s' @ [\<lparr>pendingTask = q, phase = AwaitRead\<rparr>])"
proof -
  have one: "processingCount (tasks s) \<le> 1"
    unfolding s by (rule reachable_one_processing[OF cf])
  have st: "status t = Processing"
    using reachable_in_flight[OF cf s k _ t[unfolded pid]] ph by simp
  have res: "resume (pendingTask (pipelines s ! k)) (AwaitAdapter request) (AdapterSettled outcome) =
            ([markError pid (errorMessage thrown)], Finished)"
    using out unfolding pid thrown by (auto simp: catchBlock_def)
  have ts': "tasks s' = markError pid (errorMessage thrown) (tasks s)"
    and pl': "pipelines s' = (pipelines s)[k := (pipelines s ! k)\<lparr>phase := Finished\<rparr>]"
    unfolding s' using k ph res by (simp_all add: fire_def writes_def)
  let ?t' = "t\<lparr>status := Error, detailedStatus := ''Error encountered'',
               warnings := [errorMessage thrown]\<rparr>"
  have "findTask pid (tasks s') = Some ?t'"
    unfolding ts' markError_def by (rule findTask_mapTask_self[OF _ t]) simp
  then have a: "\<exists>t'. findTask pid (tasks s') = Some t' \<and> status t' = Error \<and>
               length (warnings t') = 1 \<and>
               warnings t' = [errorMessage thrown] \<and>
               detailedStatus t' = ''Error encountered'' \<and>
               t' = t\<lparr>status := Error, detailedStatus := ''Error encountered'',
                       warnings := [errorMessage thrown]\<rparr>"
    by simp
  have m0: "outcome \<noteq> Inl e \<longrightarrow>
            errorMessage thrown = ''Invalid response format from Analysis Engine''"
    unfolding thrown by (simp add: errorMessage_invalidResponse)
  note m = errorMessage_cases[of thrown]
  have b: "phase (pipelines s' ! k) = Finished"
    using k by (simp add: pl')
  have c: "length (tasks s') = length (tasks s)"
    by (simp add: ts' markError_def)
  have d: "\<forall>u \<in> set (tasks s). id_t u \<noteq> pid \<longrightarrow> u \<in> set (tasks s')"
    unfolding ts' markError_def mapTask_def by force
  have f: "\<not> list_ex (\<lambda>u. status u = Processing) (tasks s')"
    unfolding ts' by (rule markError_frees_slot[OF t st one])
  have g: "\<forall>q. find (\<lambda>u. status u = Pending) (tasks s') = Some q \<longrightarrow>
            map_option status (findTask (id_t q) (tasks (fire EffectRun s'))) =
              Some Processing \<and>
            pipelines (fire EffectRun s') =
              pipelines s' @ [\<lparr>pendingTask = q, phase = AwaitRead\<rparr>]"
    using effect_starts[OF f] by blast
  from a m0 m b c d f g show ?thesis by blast
qed

theorem failure_isolation_witness:
  "collision_free (take 3 ex_fail) initial \<and>
   0 < length (pipelines (run (take 3 ex_fail) initial)) \<and>
   phase (pipelines (run (take 3 ex_fail) initial) ! 0) =
     AwaitAdapter (Some ''iVBORw0KGgo='', ''image/png'', ''Chinese (Simplified)'') \<and>
   findTask ''k3x9p2q1a'' (tasks (run (take 3 ex_fail) initial)) =
     Some (tasks (run (take 3 ex_fail) initial) ! 0) \<and>
   run (take 4 ex_fail) initial =
     fire (Resumed 0 (AdapterSettled (Inl (Thrown (Some ''Failed to fetch'')))))
       (run (take 3 ex_fail) initial) \<and>
   map status (tasks (run (take 4 ex_fail) initial)) = [Error, Pending] \<and>
   map_option warnings (findTask ''k3x9p2q1a'' (tasks (run (take 4 ex_fail) initial))) =
     Some [''Failed to fetch''] \<and>
   map_option warnings
     (findTask ''k3x9p2q1a''
        (tasks (fire (Resumed 0 (AdapterSettled (Inr NoBlocks))) (run (take 3 ex_fail) initial)))) =
     Some [''Invalid response format from Analysis Engine''] \<and>
   map_option warnings
     (findTask ''k3x9p2q1a''
        (tasks (fire (Resumed 0 (AdapterSettled (Inl (Thrown (Some ''API key not valid'')))))
                  (run (take 3 ex_fail) initial)))) =
     Some [''Invalid API Key''] \<and>
   map_option warnings
     (findTask ''k3x9p2q1a''
        (tasks (fire (Resumed 0 (AdapterSettled (Inl (Thrown None))))
                  (run (take 3 ex_fail) initial)))) =
     Some [''Analysis failed''] \<and>
   \<not> list_ex (\<lambda>u. status u = Processing) (tasks (run (take 4 ex_fail) initial)) \<and>
   map_option id_t (find (\<lambda>u. status u = Pending) (tasks (run (take 4 ex_fail) initial))) =
     Some ''z8m4w7c2e'' \<and>
   map_option status
     (findTask ''z8m4w7c2e'' (tasks (fire EffectRun (run (take 4 ex_fail) initial)))) =
     Some Processing"
proof -
  let ?s = "run (take 3 ex_fail) initial"
  let ?s' = "run (take 4 ex_fail) initial"
  have cf: "collision_free (take 3 ex_fail) initial"
    by code_simp
  have k: "0 < length (pipelines ?s)"
    by code_simp
  have ph: "phase (pipelines ?s ! 0) =
     AwaitAdapter (Some ''iVBORw0KGgo='', ''image/png'', ''Chinese (Simplified)'')"
    by code_simp
  have pid: "''k3x9p2q1a'' = id_t (pendingTask (pipelines ?s ! 0))"
    by code_simp
  have t: "findTask ''k3x9p2q1a'' (tasks ?s) = Some (tasks ?s ! 0)"
    by code_simp
  have s': "?s' = fire (Resumed 0 (AdapterSettled (Inl (Thrown (Some ''Failed to fetch''))))) ?s"
    by (simp add: ex_fail_def)
  have sts: "map status (tasks ?s') = [Error, Pending]"
    by code_simp
  have q: "find (\<lambda>u. status u = Pending) (tasks ?s') = Some (tasks ?s' ! 1)"
    by code_simp
  have qid: "id_t (tasks ?s' ! 1) = ''z8m4w7c2e''"
    by code_simp
  have i1: "includes_js ''API key not valid'' ''API key''"
    by simp
  have i2: "\<not> includes_js ''Failed to fetch'' ''API key''"
    by simp
  note th = failure_isolation [OF cf refl k ph pid t _ refl s',
      of "Thrown (Some ''Failed to fetch'')"]
  note th_missing = failure_isolation [OF cf refl k ph pid t _ refl refl,
      of "Inr NoBlocks" "Thrown None"]
  note th_key = failure_isolation [OF cf refl k ph pid t _ refl refl,
      of "Inl (Thrown (Some ''API key not valid''))" "Thrown (Some ''API key not valid'')"]
  note th_plain = failure_isolation [OF cf refl k ph pid t _ refl refl,
      of "Inl (Thrown None)" "Thrown None"]
  from th i2 have w1: "map_option warnings (findTask ''k3x9p2q1a'' (tasks ?s')) =
     Some [''Failed to fetch'']"
    by auto
  from th_missing have w2: "map_option warnings
     (findTask ''k3x9p2q1a'' (tasks (fire (Resumed 0 (AdapterSettled (Inr NoBlocks))) ?s))) =
     Some [''Invalid response format from Analysis Engine'']"
    by auto
  from th_key i1 have w3: "map_option warnings
     (findTask ''k3x9p2q1a''
        (tasks (fire (Resumed 0 (AdapterSettled (Inl (Thrown (Some ''API key not valid''))))) ?s))) =
     Some [''Invalid API Key'']"
    by auto
  from th_plain have w4: "map_option warnings
     (findTask ''k3x9p2q1a'' (tasks (fire (Resumed 0 (AdapterSettled (Inl (Thrown None)))) ?s))) =
     Some [''Analysis failed'']"
    by auto
  from th have free: "\<not> list_ex (\<lambda>u. status u = Processing) (tasks ?s')"
    by blast
  from th q have "map_option status
      (findTask (id_t (tasks ?s' ! 1)) (tasks (fire EffectRun ?s'))) = Some Processing"
    by blast
  then have started: "map_option status
      (findTask ''z8m4w7c2e'' (tasks (fire EffectRun ?s'))) = Some Processing"
    by (simp only: qid)
  from cf k ph t s' sts w1 w2 w3 w4 free q qid started show ?thesis by simp
qed

text \<open>
  C8. In every state that a run without id collisions reaches: when the task in flight
  is removed (the remove button belongs to the selected task), its id is gone from the
  list, its pipeline stays in flight, and no task is processing, so the next run of the
  effect starts the first pending task. From then on every update of a pipeline whose
  task is not in the list leaves the list as it is, whatever the pipeline's promise
  settles with; and in every continuation that draws no such id again, the id is in no
  value the task list takes.
\<close>

theorem removal_releases_slot:
  assumes cf: "collision_free evs initial" and s: "s = run evs initial"
    and act: "activeTaskId s = Some tid"
    and t: "findTask tid (tasks s) = Some t" and st: "status t = Processing"
    and s1: "s1 = fire (RemoveClicked tid) s"
  shows "tid \<notin> set (map id_t (tasks s1)) \<and>
         pipelines s1 = pipelines s \<and>
         \<not> list_ex (\<lambda>u. status u = Processing) (tasks s1) \<and>
         (\<forall>q. find (\<lambda>u. status u = Pending) (tasks s1) = Some q \<longrightarrow>
            map_option status (findTask (id_t q) (tasks (fire EffectRun s1))) =
              Some Processing \<and>
            pipelines (fire EffectRun s1) =
              pipelines s1 @ [\<lparr>pendingTask = q, phase = AwaitRead\<rparr>]) \<and>
         (\<forall>s2 j outcome.
            tid \<notin> set (map id_t (tasks s2)) \<and> j < length (pipelines s2) \<and>
            id_t (pendingTask (pipelines s2 ! j)) = tid \<longrightarrow>
            list_all (\<lambda>l. l = tasks s2) (writes (Resumed j outcome) s2) \<and>
            tasks (fire (Resumed j outcome) s2) = tasks s2) \<and>
         (\<forall>evs. tid \<notin> set (concat (map drawn evs)) \<longrightarrow>
            list_all (\<lambda>l. tid \<notin> set (map id_t l)) (history evs s1) \<and>
            tid \<notin> set (map id_t (tasks (run evs s1))))"
proof -
  have one: "processingCount (tasks s) \<le> 1"
    unfolding s by (rule reachable_one_processing[OF cf])
  from findTask_in[OF t] have tin: "t \<in> set (tasks s)" and tid: "id_t t = tid" by simp_all
  then have present: "tid \<in> set (map id_t (tasks s))" by force
  have ts1: "tasks s1 = removeTask tid (tasks s)" and pl1: "pipelines s1 = pipelines s"
    unfolding s1 using act present by (simp_all add: fire_def writes_def)
  have a: "tid \<notin> set (map id_t (tasks s1))"
    unfolding ts1 removeTask_def by auto
  have c: "\<not> list_ex (\<lambda>u. status u = Processing) (tasks s1)"
  proof
    assume "list_ex (\<lambda>u. status u = Processing) (tasks s1)"
    then obtain u where u: "u \<in> set (tasks s)" "id_t u \<noteq> tid" "status u = Processing"
      unfolding ts1 removeTask_def by (auto simp: list_ex_iff)
    from only_processing[OF one tin st u(1,3)] tid u(2) show False by simp
  qed
  have d: "\<forall>q. find (\<lambda>u. status u = Pending) (tasks s1) = Some q \<longrightarrow>
            map_option status (findTask (id_t q) (tasks (fire EffectRun s1))) =
              Some Processing \<and>
            pipelines (fire EffectRun s1) =
              pipelines s1 @ [\<lparr>pendingTask = q, phase = AwaitRead\<rparr>]"
    using effect_starts[OF c] by blast
  have e: "\<forall>s2 j outcome.
            tid \<notin> set (map id_t (tasks s2)) \<and> j < length (pipelines s2) \<and>
            id_t (pendingTask (pipelines s2 ! j)) = tid \<longrightarrow>
            list_all (\<lambda>l. l = tasks s2) (writes (Resumed j outcome) s2) \<and>
            tasks (fire (Resumed j outcome) s2) = tasks s2"
    using stale_pipeline by blast
  have f: "\<forall>evs. tid \<notin> set (concat (map drawn evs)) \<longrightarrow>
            list_all (\<lambda>l. tid \<notin> set (map id_t l)) (history evs s1) \<and>
            tid \<notin> set (map id_t (tasks (run evs s1)))"
    using history_keeps_absent[OF a] run_keeps_absent[OF a] by blast
  from a pl1 c d e f show ?thesis by blast
qed

theorem removal_releases_slot_witness:
  "collision_free (take 3 ex_remove) initial \<and>
   activeTaskId (run (take 3 ex_remove) initial) = Some ''k3x9p2q1a'' \<and>
   findTask ''k3x9p2q1a'' (tasks (run (take 3 ex_remove) initial)) =
     Some (tasks (run (take 3 ex_remove) initial) ! 0) \<and>
   status (tasks (run (take 3 ex_remove) initial) ! 0) = Processing \<and>
   run (take 4 ex_remove) initial =
     fire (RemoveClicked ''k3x9p2q1a'') (run (take 3 ex_remove) initial) \<and>
   map id_t (tasks (run (take 4 ex_remove) initial)) = [''z8m4w7c2e''] \<and>
   \<not> list_ex (\<lambda>u. status u = Processing) (tasks (run (take 4 ex_remove) initial)) \<and>
   map status (tasks (run (take 5 ex_remove) initial)) = [Processing] \<and>
   ''k3x9p2q1a'' \<notin> set (concat (map drawn (drop 4 ex_remove))) \<and>
   list_all (\<lambda>l. ''k3x9p2q1a'' \<notin> set (map id_t l))
     (history (drop 4 ex_remove) (run (take 4 ex_remove) initial)) \<and>
   map phase (pipelines (run ex_remove initial)) =
     [Finished,
      AwaitAdapter (Some ''JVBERi0xLjcK'', ''application/pdf'', ''Chinese (Simplified)'')] \<and>
   map id_t (tasks (run ex_remove initial)) = [''z8m4w7c2e'']"
proof -
  let ?s = "run (take 3 ex_remove) initial"
  let ?s1 = "run (take 4 ex_remove) initial"
  have cf: "collision_free (take 3 ex_remove) initial"
    by code_simp
  have act: "activeTaskId ?s = Some ''k3x9p2q1a''"
    by code_simp
  have t: "findTask ''k3x9p2q1a'' (tasks ?s) = Some (tasks ?s ! 0)"
    by code_simp
  have st: "status (tasks ?s ! 0) = Processing"
    by code_simp
  have s1: "?s1 = fire (RemoveClicked ''k3x9p2q1a'') ?s"
    by (simp add: ex_remove_def)
  have ids: "map id_t (tasks ?s1) = [''z8m4w7c2e'']"
    by code_simp
  have nxt: "map status (tasks (run (take 5 ex_remove) initial)) = [Processing]"
    by code_simp
  have dr: "''k3x9p2q1a'' \<notin> set (concat (map drawn (drop 4 ex_remove)))"
    by code_simp
  have phs: "map phase (pipelines (run ex_remove initial)) =
     [Finished,
      AwaitAdapter (Some ''JVBERi0xLjcK'', ''application/pdf'', ''Chinese (Simplified)'')]"
    by code_simp
  have fin: "map id_t (tasks (run ex_remove initial)) = [''z8m4w7c2e'']"
    by code_simp
  note th = removal_releases_slot [OF cf refl act t st s1]
  from th have free: "\<not> list_ex (\<lambda>u. status u = Processing) (tasks ?s1)"
    by blast
  from th dr have gone: "list_all (\<lambda>l. ''k3x9p2q1a'' \<notin> set (map id_t l))
     (history (drop 4 ex_remove) ?s1)"
    by blast
  from cf act t st s1 ids free nxt dr gone phs fin show ?thesis by simp
qed

end
